theory Spec2Isabelle
  imports Complex_Main
begin

section \<open>Errors\<close>

text \<open>
  Every \<^verbatim>\<open>throw\<close> of the two scripts, and every exception the engine raises on
  the paths modelled here, is a value of \<open>error\<close>:
  \<^item> \<open>InvalidDigit ch\<close>: \<^verbatim>\<open>throw new Error("Invalid digit: " + ch)\<close> (index2.js, parseInBase);
  \<^item> \<open>ZeroDenominator\<close>: \<^verbatim>\<open>throw new Error("Zero denominator")\<close> (index2.js, makeFrac);
  \<^item> \<open>DivisionByZero\<close>: the RangeError of a BigInt division or remainder by \<open>0n\<close>;
  \<^item> \<open>TypeError\<close>: reading a property of \<^verbatim>\<open>undefined\<close> (an array read out of range
    followed by \<^verbatim>\<open>.num\<close>, \<^verbatim>\<open>.x\<close> or \<^verbatim>\<open>.slice\<close>);
  \<^item> \<open>RangeError\<close>: \<^verbatim>\<open>new Array(k)\<close> with a negative length;
  \<^item> \<open>SingularMatrix\<close>: \<^verbatim>\<open>throw new Error("Singular matrix encountered ...")\<close>
    (index.js, solveLinearSystem);
  \<^item> \<open>UnsupportedBase\<close>: \<^verbatim>\<open>throw new Error(`Unsupported base ...`)\<close> (index.js, parseInput).
\<close>

datatype error =
    InvalidDigit char
  | ZeroDenominator
  | DivisionByZero
  | TypeError
  | RangeError
  | SingularMatrix
  | UnsupportedBase

section \<open>The base decoder (index2.js, parseInBase)\<close>

text \<open>
  A string is a list of characters, each a code unit below 256. \<^verbatim>\<open>toLowerCase\<close>
  maps \<open>A\<close>..\<open>Z\<close> to \<open>a\<close>..\<open>z\<close> and the upper-case letters of Latin-1 to their
  lower-case forms; no other character of this range changes.
\<close>

definition DIGITS :: string where
  "DIGITS = ''0123456789abcdefghijklmnopqrstuvwxyz''"

definition toLowerCase_char :: "char \<Rightarrow> char" where
  "toLowerCase_char c =
     (let n = (of_char c :: nat) in
      if 65 \<le> n \<and> n \<le> 90 then char_of (n + 32)
      else if 192 \<le> n \<and> n \<le> 222 \<and> n \<noteq> 215 then char_of (n + 32)
      else c)"

definition toLowerCase :: "string \<Rightarrow> string" where
  "toLowerCase s = map toLowerCase_char s"

text \<open>\<^verbatim>\<open>DIGITS.indexOf(ch)\<close>: the first position of \<open>ch\<close>, or \<open>-1\<close>.\<close>

fun indexOf_from :: "string \<Rightarrow> char \<Rightarrow> int \<Rightarrow> int" where
  "indexOf_from [] ch i = -1"
| "indexOf_from (c # cs) ch i = (if c = ch then i else indexOf_from cs ch (i + 1))"

definition indexOf :: "string \<Rightarrow> char \<Rightarrow> int" where
  "indexOf s ch = indexOf_from s ch 0"

text \<open>
  The loop \<^verbatim>\<open>for (const ch of s)\<close> with the accumulator \<open>result\<close>. The base is the
  integer that \<^verbatim>\<open>BigInt(base)\<close> yields; BigInt arithmetic is unbounded, so \<open>int\<close>.
\<close>

fun parse_loop :: "string \<Rightarrow> int \<Rightarrow> int \<Rightarrow> error + int" where
  "parse_loop [] B result = Inr result"
| "parse_loop (ch # s) B result =
     (let v = indexOf DIGITS ch in
      if v < 0 then Inl (InvalidDigit ch)
      else parse_loop s B (result * B + v))"

definition parseInBase :: "string \<Rightarrow> int \<Rightarrow> error + int" where
  "parseInBase s base = parse_loop (toLowerCase s) base 0"

text \<open>
  The guard of the sibling script (index.js, parseInput, line 27) on an integer-valued
  base: \<^verbatim>\<open>if (!Number.isInteger(baseNum) || baseNum < 2 || baseNum > 36) throw ...\<close>.
\<close>

definition checkBase :: "int \<Rightarrow> error + int" where
  "checkBase baseNum = (if baseNum < 2 \<or> baseNum > 36 then Inl UnsupportedBase else Inr baseNum)"

lemma parseInBase_ff: "parseInBase ''ff'' 16 = Inr 255"
  by code_simp

lemma parseInBase_1010: "parseInBase ''1010'' 2 = Inr 10"
  by code_simp

lemma parseInBase_z: "parseInBase ''z'' 36 = Inr 35"
  by code_simp

lemma parseInBase_upper: "parseInBase ''FF'' 16 = Inr 255"
  by code_simp

lemma parseInBase_bad_char: "parseInBase ''1-'' 10 = Inl (InvalidDigit (CHR ''-''))"
  by code_simp

text \<open>
  What the loop computes: it fails at the first character outside the 36-character
  alphabet, and otherwise returns the left-to-right accumulation
  \<open>result * B + digit\<close>; with a base that is not negative the result is never negative.
  The base itself plays no part in the check.
\<close>

lemma parse_loop_spec:
  "parse_loop s B acc =
     (case List.find (\<lambda>ch. indexOf DIGITS ch < 0) s of
        Some ch \<Rightarrow> Inl (InvalidDigit ch)
      | None \<Rightarrow> Inr (foldl (\<lambda>r ch. r * B + indexOf DIGITS ch) acc s))"
  by (induction s arbitrary: acc) (simp_all add: Let_def split: option.splits)

lemma parse_loop_nonneg:
  "0 \<le> B \<Longrightarrow> 0 \<le> acc \<Longrightarrow> parse_loop s B acc = Inr r \<Longrightarrow> 0 \<le> r"
proof (induction s arbitrary: acc)
  case Nil
  then show ?case by simp
next
  case (Cons ch s)
  let ?v = "indexOf DIGITS ch"
  from Cons.prems(3) have v: "\<not> ?v < 0" and rest: "parse_loop s B (acc * B + ?v) = Inr r"
    by (simp_all add: Let_def split: if_splits)
  have "0 \<le> acc * B + ?v" using Cons.prems(1,2) v by simp
  from Cons.IH [OF Cons.prems(1) this rest] show ?case .
qed

lemma parseInBase_nonneg: "0 \<le> base \<Longrightarrow> parseInBase s base = Inr r \<Longrightarrow> 0 \<le> r"
  unfolding parseInBase_def by (rule parse_loop_nonneg [of base 0]) simp_all

text \<open>
  C3. The claim: parseInBase fails with InvalidDigit whenever a character denotes a digit
  value greater than or equal to the base, so that decoding "g" in base 16 fails. The
  code compares the digit value with \<open>0\<close> only: "g" has index 16 in DIGITS, and decoding
  it in base 16 returns 16.
\<close>

theorem parseInBase_g_16: "parseInBase ''g'' 16 = Inr 16"
  by code_simp

text \<open>
  C8. The claim: the decoder fails with UnsupportedBase for every base outside [2, 36].
  parseInBase has no check of the base (the sibling script has one, \<open>checkBase\<close>): it
  decodes "10" in base 37 to 37.
\<close>

theorem parseInBase_base_37: "parseInBase ''10'' 37 = Inr 37 \<and> checkBase 37 = Inl UnsupportedBase"
  by code_simp


section \<open>Rational numbers (index2.js, gcd, makeFrac, add, sub, mul, div)\<close>

text \<open>
  BigInt division truncates toward zero and the remainder takes the sign of the dividend;
  both raise on a zero divisor.
\<close>

definition bigint_div :: "int \<Rightarrow> int \<Rightarrow> int" where
  "bigint_div a b = sgn a * sgn b * (\<bar>a\<bar> div \<bar>b\<bar>)"

definition bigint_rem :: "int \<Rightarrow> int \<Rightarrow> int" where
  "bigint_rem a b = sgn a * (\<bar>a\<bar> mod \<bar>b\<bar>)"

definition bigint_quot :: "int \<Rightarrow> int \<Rightarrow> error + int" where
  "bigint_quot a b = (if b = 0 then Inl DivisionByZero else Inr (bigint_div a b))"

lemma bigint_rem_less: "b \<noteq> 0 \<Longrightarrow> \<bar>bigint_rem a b\<bar> < \<bar>b\<bar>"
  by (simp add: bigint_rem_def abs_mult)

text \<open>
  \<^verbatim>\<open>gcd\<close> (named \<open>gcd_js\<close> here, beside HOL's \<open>gcd\<close>): the loop
  \<^verbatim>\<open>while (b !== 0n) { t = a % b; a = b; b = t }\<close>, then the absolute value of \<open>a\<close>.
  The remainder is only taken under the guard \<open>b \<noteq> 0\<close>.
\<close>

function gcd_js :: "int \<Rightarrow> int \<Rightarrow> int" where
  "gcd_js a b = (if b \<noteq> 0 then gcd_js b (bigint_rem a b) else (if a < 0 then - a else a))"
  by pat_completeness auto
termination
  by (relation "measure (\<lambda>(a, b). nat \<bar>b\<bar>)") (auto simp: bigint_rem_less)

declare gcd_js.simps [simp del]

text \<open>
  A rational is the object \<^verbatim>\<open>{ num, den }\<close>. No statement of the script assigns to a
  field of such an object: the operations read their operands and build a new object in
  \<^verbatim>\<open>makeFrac\<close>, so a rational is an immutable value here and every operation is a
  function of its operands. \<^verbatim>\<open>sub\<close> and \<^verbatim>\<open>div\<close> are named \<open>sub_frac\<close> and
  \<open>div_frac\<close>.
\<close>

record frac =
  num :: int
  den :: int

definition makeFrac :: "int \<Rightarrow> int \<Rightarrow> error + frac" where
  "makeFrac n d =
     (if d = 0 then Inl ZeroDenominator
      else
        let g = gcd_js n d in
        case bigint_quot n g of
          Inl e \<Rightarrow> Inl e
        | Inr n1 \<Rightarrow>
            (case bigint_quot d g of
               Inl e \<Rightarrow> Inl e
             | Inr d1 \<Rightarrow>
                 if d1 < 0 then Inr \<lparr>num = - n1, den = - d1\<rparr>
                 else Inr \<lparr>num = n1, den = d1\<rparr>))"

definition add :: "frac \<Rightarrow> frac \<Rightarrow> error + frac" where
  "add a b = makeFrac (num a * den b + num b * den a) (den a * den b)"

definition sub_frac :: "frac \<Rightarrow> frac \<Rightarrow> error + frac" where
  "sub_frac a b = makeFrac (num a * den b - num b * den a) (den a * den b)"

definition mul :: "frac \<Rightarrow> frac \<Rightarrow> error + frac" where
  "mul a b = makeFrac (num a * num b) (den a * den b)"

definition div_frac :: "frac \<Rightarrow> frac \<Rightarrow> error + frac" where
  "div_frac a b = makeFrac (num a * den b) (den a * num b)"

text \<open>
  The canonical form of the specification (positive denominator, numerator and denominator
  coprime) and the rational number an object denotes.
\<close>

definition canonical :: "frac \<Rightarrow> bool" where
  "canonical q \<longleftrightarrow> 0 < den q \<and> gcd \<bar>num q\<bar> (den q) = 1"

definition to_rat :: "frac \<Rightarrow> rat" where
  "to_rat q = Fract (num q) (den q)"

lemma gcd_js_eq: "gcd_js a b = gcd a b"
proof (induction a b rule: gcd_js.induct)
  case (1 a b)
  show ?case
  proof (cases "b = 0")
    case True
    then show ?thesis by (simp add: gcd_js.simps [of a 0])
  next
    case False
    have "gcd b (bigint_rem a b) = gcd \<bar>b\<bar> (\<bar>a\<bar> mod \<bar>b\<bar>)"
      by (cases "a = 0") (simp_all add: bigint_rem_def sgn_if)
    also have "\<dots> = gcd \<bar>a\<bar> \<bar>b\<bar>"
      by (metis gcd.commute gcd_red_int)
    finally show ?thesis using False 1 by (simp add: gcd_js.simps [of a b])
  qed
qed

lemma bigint_div_exact: "0 < g \<Longrightarrow> g dvd a \<Longrightarrow> bigint_div a g = a div g"
  by (auto simp: bigint_div_def sgn_if elim!: dvdE)
    (metis nonzero_mult_div_cancel_left div_mult_mult2 mult_minus_right minus_mult_minus
      mult_minus_left div_minus_minus neg_less_0_iff_less)

lemma makeFrac_zero_den: "makeFrac n 0 = Inl ZeroDenominator"
  by (simp add: makeFrac_def)

lemma makeFrac_normalize:
  assumes "d \<noteq> 0"
  shows "makeFrac n d = Inr \<lparr>num = fst (Rat.normalize (n, d)), den = snd (Rat.normalize (n, d))\<rparr>"
proof -
  let ?g = "gcd n d"
  have g: "0 < ?g" using assms by (simp add: gcd_pos_int)
  have gn: "bigint_quot n (gcd_js n d) = Inr (n div ?g)"
    using g by (simp add: bigint_quot_def gcd_js_eq bigint_div_exact)
  have gd: "bigint_quot d (gcd_js n d) = Inr (d div ?g)"
    using g by (simp add: bigint_quot_def gcd_js_eq bigint_div_exact)
  show ?thesis
  proof (cases "0 < d")
    case True
    then have "0 < d div ?g"
      by (metis g gcd_dvd2 dvd_div_eq_0_iff gcd_ge_0_int less_le pos_imp_zdiv_nonneg_iff
          assms less_imp_le)
    then show ?thesis
      using True assms gn gd by (simp add: makeFrac_def Rat.normalize_def Let_def)
  next
    case False
    then have neg: "d < 0" using assms by simp
    have "d div ?g < 0"
      using neg g by (simp add: pos_imp_zdiv_neg_iff)
    moreover have "n div (- ?g) = - (n div ?g)" "d div (- ?g) = - (d div ?g)"
      by (simp_all add: div_minus_right dvd_neg_div)
    ultimately show ?thesis
      using neg assms gn gd by (simp add: makeFrac_def Rat.normalize_def Let_def)
  qed
qed

lemma makeFrac_canonical:
  assumes "d \<noteq> 0"
  shows "\<exists>q. makeFrac n d = Inr q \<and> canonical q \<and> to_rat q = Fract n d"
proof -
  obtain p r where pr: "Rat.normalize (n, d) = (p, r)" by (cases "Rat.normalize (n, d)")
  have "0 < r" "coprime p r" "Fract p r = Fract n d"
    using pr by (auto dest: Rat.normalize_denom_pos Rat.normalize_coprime Rat.normalize_eq)
  then show ?thesis
    using makeFrac_normalize [OF assms, of n] pr
    by (simp add: canonical_def to_rat_def coprime_iff_gcd_eq_1)
qed

lemma canonical_quotient_of: "canonical q \<Longrightarrow> quotient_of (to_rat q) = (num q, den q)"
  by (simp add: canonical_def to_rat_def quotient_of_Fract Rat.normalize_stable
      coprime_iff_gcd_eq_1)

lemma canonical_unique:
  "canonical a \<Longrightarrow> canonical b \<Longrightarrow> to_rat a = to_rat b \<Longrightarrow> a = b"
  using canonical_quotient_of [of a] canonical_quotient_of [of b] by simp

lemma add_canonical:
  "canonical a \<Longrightarrow> canonical b \<Longrightarrow>
     \<exists>c. add a b = Inr c \<and> canonical c \<and> to_rat c = to_rat a + to_rat b"
  using makeFrac_canonical [of "den a * den b" "num a * den b + num b * den a"]
  by (auto simp: add_def canonical_def to_rat_def)

lemma sub_canonical:
  "canonical a \<Longrightarrow> canonical b \<Longrightarrow>
     \<exists>c. sub_frac a b = Inr c \<and> canonical c \<and> to_rat c = to_rat a - to_rat b"
  using makeFrac_canonical [of "den a * den b" "num a * den b - num b * den a"]
  by (auto simp: sub_frac_def canonical_def to_rat_def)

lemma mul_canonical:
  "canonical a \<Longrightarrow> canonical b \<Longrightarrow>
     \<exists>c. mul a b = Inr c \<and> canonical c \<and> to_rat c = to_rat a * to_rat b"
  using makeFrac_canonical [of "den a * den b" "num a * num b"]
  by (auto simp: mul_def canonical_def to_rat_def)

lemma div_canonical:
  "canonical a \<Longrightarrow> canonical b \<Longrightarrow> num b \<noteq> 0 \<Longrightarrow>
     \<exists>c. div_frac a b = Inr c \<and> canonical c \<and> to_rat c = to_rat a / to_rat b"
  using makeFrac_canonical [of "den a * num b" "num a * den b"]
  by (auto simp: div_frac_def canonical_def to_rat_def)

lemma div_by_zero: "num b = 0 \<Longrightarrow> div_frac a b = Inl ZeroDenominator"
  by (simp add: div_frac_def makeFrac_def)

lemma to_rat_eq_0_iff: "canonical a \<Longrightarrow> to_rat a = 0 \<longleftrightarrow> num a = 0"
  by (auto simp: canonical_def to_rat_def Fract_of_int_quotient)

text \<open>
  C4. makeFrac fails with ZeroDenominator when the denominator is 0; otherwise it returns a
  pair with a positive denominator and gcd(|numerator|, denominator) = 1 that denotes the
  same fraction; make(4, -8) is -1/2 and make(0, 5) is 0/1.
\<close>

theorem makeFrac_spec:
  "(if d = 0 then makeFrac n d = Inl ZeroDenominator
    else (\<exists>q. makeFrac n d = Inr q \<and> 0 < den q \<and> gcd \<bar>num q\<bar> (den q) = 1
            \<and> num q * d = n * den q))
   \<and> makeFrac 4 (- 8) = Inr \<lparr>num = - 1, den = 2\<rparr>
   \<and> makeFrac 0 5 = Inr \<lparr>num = 0, den = 1\<rparr>"
proof -
  have "makeFrac 4 (- 8) = Inr \<lparr>num = - 1, den = 2\<rparr>"
    by (simp add: makeFrac_normalize Rat.normalize_def)
  moreover have "makeFrac 0 5 = Inr \<lparr>num = 0, den = 1\<rparr>"
    by (simp add: makeFrac_normalize Rat.normalize_def)
  moreover have "\<exists>q. makeFrac n d = Inr q \<and> 0 < den q \<and> gcd \<bar>num q\<bar> (den q) = 1
            \<and> num q * d = n * den q" if nz: "d \<noteq> 0"
  proof -
    obtain q where q: "makeFrac n d = Inr q" "canonical q" "to_rat q = Fract n d"
      using makeFrac_canonical [OF nz] by blast
    then have "num q * d = n * den q"
      using nz by (simp add: to_rat_def canonical_def eq_rat)
    then show ?thesis using q by (auto simp: canonical_def)
  qed
  ultimately show ?thesis by (simp add: makeFrac_zero_den)
qed


text \<open>
  C5, as the claim states it: div of a canonical rational by the zero rational fails with
  DivisionByZero. It fails in \<^verbatim>\<open>makeFrac\<close>, with the Zero denominator error.
\<close>

theorem div_frac_zero_error:
  "canonical \<lparr>num = 1, den = 1\<rparr> \<and> canonical \<lparr>num = 0, den = 1\<rparr>
   \<and> div_frac \<lparr>num = 1, den = 1\<rparr> \<lparr>num = 0, den = 1\<rparr> = Inl ZeroDenominator
   \<and> div_frac \<lparr>num = 1, den = 1\<rparr> \<lparr>num = 0, den = 1\<rparr> \<noteq> Inl DivisionByZero"
  by (simp add: canonical_def div_by_zero)

text \<open>
  C5, amended. For canonical rationals a and b, add, sub and mul return a canonical rational
  (the sum, the difference, the product); div fails exactly when the numerator of b is 0,
  with the Zero denominator error of makeFrac, and otherwise returns the canonical
  quotient. Operands are immutable values, so no operation changes them.
\<close>

theorem frac_ops_total:
  assumes "canonical a" and "canonical b"
  shows "(\<exists>c. add a b = Inr c \<and> canonical c \<and> to_rat c = to_rat a + to_rat b)
       \<and> (\<exists>c. sub_frac a b = Inr c \<and> canonical c \<and> to_rat c = to_rat a - to_rat b)
       \<and> (\<exists>c. mul a b = Inr c \<and> canonical c \<and> to_rat c = to_rat a * to_rat b)
       \<and> (if num b = 0 then div_frac a b = Inl ZeroDenominator
          else (\<exists>c. div_frac a b = Inr c \<and> canonical c \<and> to_rat c = to_rat a / to_rat b))"
  using assms add_canonical [of a b] sub_canonical [of a b] mul_canonical [of a b]
    div_canonical [of a b] div_by_zero [of b a]
  by simp

theorem frac_ops_total_witness:
  "canonical \<lparr>num = 1, den = 2\<rparr> \<and> canonical \<lparr>num = 3, den = 4\<rparr>
   \<and> (\<exists>c. add \<lparr>num = 1, den = 2\<rparr> \<lparr>num = 3, den = 4\<rparr> = Inr c \<and> canonical c)
   \<and> (\<exists>c. sub_frac \<lparr>num = 1, den = 2\<rparr> \<lparr>num = 3, den = 4\<rparr> = Inr c \<and> canonical c)
   \<and> (\<exists>c. mul \<lparr>num = 1, den = 2\<rparr> \<lparr>num = 3, den = 4\<rparr> = Inr c \<and> canonical c)
   \<and> (\<exists>c. div_frac \<lparr>num = 1, den = 2\<rparr> \<lparr>num = 3, den = 4\<rparr> = Inr c \<and> canonical c)"
proof -
  have "gcd (3::int) 4 = 1"
    by code_simp
  then have a: "canonical \<lparr>num = 1, den = 2\<rparr>" and b: "canonical \<lparr>num = 3, den = 4\<rparr>"
    by (simp_all add: canonical_def)
  show ?thesis
    using frac_ops_total [OF a b] a b by auto
qed

section \<open>The exact solver (index2.js, solve)\<close>

text \<open>
  The matrix is an array of rows, each an array of rationals; the rows are distinct
  arrays, as \<^verbatim>\<open>main\<close> builds them, so a write to one row reaches no other.
  \<open>solve\<close> reads
  \<^verbatim>\<open>matrix.length\<close> and no other length, and it writes a row only at an index it has
  just read, so rows never grow. It never reads \<^verbatim>\<open>rhs.length\<close>, and the swap of two
  entries of \<open>rhs\<close> may write at an index the array does not have yet; the vector
  is therefore a map from indices to values, \<open>None\<close> for \<^verbatim>\<open>undefined\<close>.
  A read out of range yields \<^verbatim>\<open>undefined\<close>, and the first \<^verbatim>\<open>.num\<close> or
  \<^verbatim>\<open>.den\<close> of it raises a TypeError. The cases below follow the order in which the
  script evaluates its calls, so the first error is the script's.
\<close>

type_synonym matrix = "frac list list"
type_synonym vector = "nat \<Rightarrow> frac option"

definition array_of :: "'a list \<Rightarrow> nat \<Rightarrow> 'a option" where
  "array_of xs i = (if i < length xs then Some (xs ! i) else None)"

definition cell :: "matrix \<Rightarrow> nat \<Rightarrow> nat \<Rightarrow> frac option" where
  "cell m r c = (if r < length m \<and> c < length (m ! r) then Some (m ! r ! c) else None)"

text \<open>
  The pivot search \<^verbatim>\<open>for (let r = col; r < n; r++) if (matrix[r][col].num !== 0n)
  { pivot = r; break; }\<close>, entered with \<open>r = col\<close>; without a hit the pivot stays
  \<open>col\<close>.
\<close>

function find_pivot :: "matrix \<Rightarrow> nat \<Rightarrow> nat \<Rightarrow> nat \<Rightarrow> error + nat" where
  "find_pivot m n col r =
     (if r < n then
        (case cell m r col of
           None \<Rightarrow> Inl TypeError
         | Some a \<Rightarrow> if num a \<noteq> 0 then Inr r else find_pivot m n col (r + 1))
      else Inr col)"
  by pat_completeness auto
termination
  by (relation "measure (\<lambda>(m, n, col, r). n - r)") auto

declare find_pivot.simps [simp del]

text \<open>The two destructuring swaps: both right-hand sides are read before any write.\<close>

definition swap_rows :: "matrix \<Rightarrow> nat \<Rightarrow> nat \<Rightarrow> matrix" where
  "swap_rows m col pivot = (m[col := m ! pivot])[pivot := m ! col]"

definition swap_rhs :: "vector \<Rightarrow> nat \<Rightarrow> nat \<Rightarrow> vector" where
  "swap_rhs rhs col pivot = (rhs(col := rhs pivot))(pivot := rhs col)"

text \<open>
  The innermost loop, \<^verbatim>\<open>matrix[r][c] = sub(matrix[r][c], mul(factor, matrix[col][c]))\<close>
  for \<open>c\<close> from \<open>col\<close>: \<open>mul\<close> runs before the body of \<open>sub\<close>.
\<close>

function elim_cols :: "matrix \<Rightarrow> nat \<Rightarrow> nat \<Rightarrow> nat \<Rightarrow> frac \<Rightarrow> nat \<Rightarrow> error + matrix" where
  "elim_cols m n col r factor c =
     (if c < n then
        (case cell m col c of
           None \<Rightarrow> Inl TypeError
         | Some p \<Rightarrow>
             (case mul factor p of
                Inl e \<Rightarrow> Inl e
              | Inr t \<Rightarrow>
                  (case cell m r c of
                     None \<Rightarrow> Inl TypeError
                   | Some a \<Rightarrow>
                       (case sub_frac a t of
                          Inl e \<Rightarrow> Inl e
                        | Inr v \<Rightarrow> elim_cols (m[r := (m ! r)[c := v]]) n col r factor (c + 1)))))
      else Inr m)"
  by pat_completeness auto
termination
  by (relation "measure (\<lambda>(m, n, col, r, factor, c). n - c)") auto

declare elim_cols.simps [simp del]

text \<open>\<^verbatim>\<open>rhs[r] = sub(rhs[r], mul(factor, rhs[col]))\<close>.\<close>

definition elim_rhs :: "vector \<Rightarrow> nat \<Rightarrow> nat \<Rightarrow> frac \<Rightarrow> error + vector" where
  "elim_rhs rhs col r factor =
     (case rhs col of
        None \<Rightarrow> Inl TypeError
      | Some p \<Rightarrow>
          (case mul factor p of
             Inl e \<Rightarrow> Inl e
           | Inr t \<Rightarrow>
               (case rhs r of
                  None \<Rightarrow> Inl TypeError
                | Some a \<Rightarrow>
                    (case sub_frac a t of
                       Inl e \<Rightarrow> Inl e
                     | Inr v \<Rightarrow> Inr (rhs(r := Some v))))))"

text \<open>
  One row below the pivot row: skipped when its entry in the pivot column is zero.
  The state is the pair of the matrix and the vector, returned updated.
\<close>

definition elim_row :: "matrix \<times> vector \<Rightarrow> nat \<Rightarrow> nat \<Rightarrow> nat \<Rightarrow> error + matrix \<times> vector" where
  "elim_row s n col r =
     (case cell (fst s) r col of
        None \<Rightarrow> Inl TypeError
      | Some a \<Rightarrow>
          if num a = 0 then Inr s
          else
            (case cell (fst s) col col of
               None \<Rightarrow> Inl TypeError
             | Some p \<Rightarrow>
                 (case div_frac a p of
                    Inl e \<Rightarrow> Inl e
                  | Inr factor \<Rightarrow>
                      (case elim_cols (fst s) n col r factor col of
                         Inl e \<Rightarrow> Inl e
                       | Inr m' \<Rightarrow>
                           (case elim_rhs (snd s) col r factor of
                              Inl e \<Rightarrow> Inl e
                            | Inr rhs' \<Rightarrow> Inr (m', rhs'))))))"

function elim_rows :: "matrix \<times> vector \<Rightarrow> nat \<Rightarrow> nat \<Rightarrow> nat \<Rightarrow> error + matrix \<times> vector" where
  "elim_rows s n col r =
     (if r < n then
        (case elim_row s n col r of
           Inl e \<Rightarrow> Inl e
         | Inr s' \<Rightarrow> elim_rows s' n col (r + 1))
      else Inr s)"
  by pat_completeness auto
termination
  by (relation "measure (\<lambda>(s, n, col, r). n - r)") auto

declare elim_rows.simps [simp del]

text \<open>One column of the forward elimination, and the loop over the columns.\<close>

definition pivot_step :: "matrix \<times> vector \<Rightarrow> nat \<Rightarrow> nat \<Rightarrow> error + matrix \<times> vector" where
  "pivot_step s n col =
     (case find_pivot (fst s) n col col of
        Inl e \<Rightarrow> Inl e
      | Inr pivot \<Rightarrow>
          elim_rows
            (if pivot \<noteq> col then (swap_rows (fst s) col pivot, swap_rhs (snd s) col pivot) else s)
            n col (col + 1))"

function forward :: "matrix \<times> vector \<Rightarrow> nat \<Rightarrow> nat \<Rightarrow> error + matrix \<times> vector" where
  "forward s n col =
     (if col < n then
        (case pivot_step s n col of
           Inl e \<Rightarrow> Inl e
         | Inr s' \<Rightarrow> forward s' n (col + 1))
      else Inr s)"
  by pat_completeness auto
termination
  by (relation "measure (\<lambda>(s, n, col). n - col)") auto

declare forward.simps [simp del]

text \<open>
  Back substitution. The inner loop accumulates \<^verbatim>\<open>sum = add(sum, mul(matrix[i][j], x[j]))\<close>
  (the accumulator is \<open>acc\<close>), then
  \<^verbatim>\<open>x[i] = div(sub(rhs[i], sum), matrix[i][i])\<close>; the outer loop runs \<open>i\<close> from \<open>n - 1\<close>
  down to \<open>0\<close>, so \<open>back_rows \<dots> (Suc i)\<close> runs the body at \<open>i\<close> and goes on below it.
\<close>

function back_sum :: "matrix \<Rightarrow> nat \<Rightarrow> frac list \<Rightarrow> nat \<Rightarrow> nat \<Rightarrow> frac \<Rightarrow> error + frac" where
  "back_sum m n x i j acc =
     (if j < n then
        (case cell m i j of
           None \<Rightarrow> Inl TypeError
         | Some a \<Rightarrow>
             (case array_of x j of
                None \<Rightarrow> Inl TypeError
              | Some xj \<Rightarrow>
                  (case mul a xj of
                     Inl e \<Rightarrow> Inl e
                   | Inr t \<Rightarrow>
                       (case add acc t of
                          Inl e \<Rightarrow> Inl e
                        | Inr acc' \<Rightarrow> back_sum m n x i (j + 1) acc'))))
      else Inr acc)"
  by pat_completeness auto
termination
  by (relation "measure (\<lambda>(m, n, x, i, j, acc). n - j)") auto

declare back_sum.simps [simp del]

definition back_row :: "matrix \<Rightarrow> vector \<Rightarrow> nat \<Rightarrow> frac list \<Rightarrow> nat \<Rightarrow> error + frac list" where
  "back_row m rhs n x i =
     (case makeFrac 0 1 of
        Inl e \<Rightarrow> Inl e
      | Inr acc0 \<Rightarrow>
          (case back_sum m n x i (i + 1) acc0 of
             Inl e \<Rightarrow> Inl e
           | Inr acc \<Rightarrow>
               (case rhs i of
                  None \<Rightarrow> Inl TypeError
                | Some b \<Rightarrow>
                    (case sub_frac b acc of
                       Inl e \<Rightarrow> Inl e
                     | Inr d \<Rightarrow>
                         (case cell m i i of
                            None \<Rightarrow> Inl TypeError
                          | Some p \<Rightarrow>
                              (case div_frac d p of
                                 Inl e \<Rightarrow> Inl e
                               | Inr v \<Rightarrow> Inr (x[i := v])))))))"

fun back_rows :: "matrix \<Rightarrow> vector \<Rightarrow> nat \<Rightarrow> frac list \<Rightarrow> nat \<Rightarrow> error + frac list" where
  "back_rows m rhs n x 0 = Inr x"
| "back_rows m rhs n x (Suc i) =
     (case back_row m rhs n x i of
        Inl e \<Rightarrow> Inl e
      | Inr x' \<Rightarrow> back_rows m rhs n x' i)"

text \<open>
  \<open>forward\<close> is the state of the caller's arrays after the elimination; the result is
  the fresh array \<open>x\<close>.
\<close>

definition solve :: "matrix \<Rightarrow> frac list \<Rightarrow> error + frac list" where
  "solve matrix rhs =
     (let n = length matrix in
      case forward (matrix, array_of rhs) n 0 of
        Inl e \<Rightarrow> Inl e
      | Inr s \<Rightarrow>
          (case makeFrac 0 1 of
             Inl e \<Rightarrow> Inl e
           | Inr z \<Rightarrow> back_rows (fst s) (snd s) n (replicate n z) n))"

lemma makeFrac_Inr_canonical: "makeFrac n d = Inr q \<Longrightarrow> canonical q"
  using makeFrac_canonical [of d n] by (cases "d = 0") (auto simp: makeFrac_zero_den)






text \<open>
  C2. The claim: on a matrix with two identical rows the exact solver fails with
  SingularMatrix. \<open>solve\<close> has no such check (the approximate solver of index.js has
  one): the pivot search finds no row, the elimination goes on, and the back substitution
  divides by the zero on the diagonal, which fails in makeFrac with Zero denominator.
\<close>

theorem solve_identical_rows:
  "solve [[\<lparr>num = 1, den = 1\<rparr>, \<lparr>num = 1, den = 1\<rparr>], [\<lparr>num = 1, den = 1\<rparr>, \<lparr>num = 1, den = 1\<rparr>]]
         [\<lparr>num = 1, den = 1\<rparr>, \<lparr>num = 2, den = 1\<rparr>]
     = Inl ZeroDenominator"
  by code_simp

section \<open>The system builders (index.js, buildSystem; index2.js, main)\<close>

text \<open>
  A point is the pair of its \<open>x\<close> and its \<open>y\<close>. In index.js both are Numbers; they are
  integers here, with exact products, which is what the Number arithmetic of
  \<^verbatim>\<open>pow *= xi\<close> computes as long as the powers stay below \<open>2^53\<close>.
  \<^verbatim>\<open>new Array(k)\<close> raises a RangeError unless \<open>0 \<le> k < 2^32\<close>, and \<^verbatim>\<open>points[i].x\<close>
  raises a TypeError when the list has no element \<open>i\<close>.
\<close>

type_synonym point = "int \<times> int"






text \<open>
  The script index2.js, \<^verbatim>\<open>main\<close>. The parsed input is \<open>k\<close> (\<^verbatim>\<open>data.keys.k\<close>, an
  integer) and the entries \<^verbatim>\<open>data[i]\<close>, a map from the key to the pair of the base
  (\<^verbatim>\<open>Number(data[i].base)\<close>, an integer) and the digit string. The first loop decodes
  the points \<open>(i, y)\<close> for \<open>i\<close> from 1 to \<open>k\<close>; the second fills the matrix with
  \<^verbatim>\<open>makeFrac(xpow)\<close> and the vector with \<^verbatim>\<open>makeFrac(points[i].y)\<close>.
\<close>

function decode_points ::
  "(int \<Rightarrow> (int \<times> string) option) \<Rightarrow> int \<Rightarrow> int \<Rightarrow> point list \<Rightarrow> error + point list" where
  "decode_points data k i points =
     (if i \<le> k then
        (case data i of
           None \<Rightarrow> Inl TypeError
         | Some entry \<Rightarrow>
             (case parseInBase (snd entry) (fst entry) of
                Inl e \<Rightarrow> Inl e
              | Inr y \<Rightarrow> decode_points data k (i + 1) (points @ [(i, y)])))
      else Inr points)"
  by pat_completeness auto
termination
  by (relation "measure (\<lambda>(data, k, i, points). nat (k + 1 - i))") auto

declare decode_points.simps [simp del]

function exact_row :: "frac list \<Rightarrow> int \<Rightarrow> int \<Rightarrow> nat \<Rightarrow> nat \<Rightarrow> error + frac list" where
  "exact_row row x xpow k j =
     (if j < k then
        (case makeFrac xpow 1 of
           Inl e \<Rightarrow> Inl e
         | Inr q \<Rightarrow> exact_row (row[j := q]) x (xpow * x) k (j + 1))
      else Inr row)"
  by pat_completeness auto
termination
  by (relation "measure (\<lambda>(row, x, xpow, k, j). k - j)") auto

declare exact_row.simps [simp del]

function exact_rows ::
  "matrix \<times> frac list \<Rightarrow> point list \<Rightarrow> nat \<Rightarrow> nat \<Rightarrow> error + matrix \<times> frac list" where
  "exact_rows s points k i =
     (if i < k then
        (case array_of points i of
           None \<Rightarrow> Inl TypeError
         | Some p \<Rightarrow>
             (case exact_row (fst s ! i) (fst p) 1 k 0 of
                Inl e \<Rightarrow> Inl e
              | Inr row \<Rightarrow>
                  (case makeFrac (snd p) 1 of
                     Inl e \<Rightarrow> Inl e
                   | Inr q \<Rightarrow> exact_rows ((fst s)[i := row], (snd s)[i := q]) points k (i + 1))))
      else Inr s)"
  by pat_completeness auto
termination
  by (relation "measure (\<lambda>(s, points, k, i). k - i)") auto

declare exact_rows.simps [simp del]

definition main_system :: "point list \<Rightarrow> int \<Rightarrow> error + matrix \<times> frac list" where
  "main_system points k =
     (case makeFrac 0 1 of
        Inl e \<Rightarrow> Inl e
      | Inr z \<Rightarrow>
          if k < 0 \<or> 4294967295 < k then Inl RangeError
          else exact_rows (replicate (nat k) (replicate (nat k) z), replicate (nat k) z) points (nat k) 0)"

text \<open>
  \<open>main_coeff\<close> is the coefficient vector \<^verbatim>\<open>coeff\<close>, and \<open>main\<close> the value the
  script prints, \<^verbatim>\<open>C.num / C.den\<close> for \<^verbatim>\<open>C = coeff[0]\<close>.
\<close>

definition main_coeff :: "int \<Rightarrow> (int \<Rightarrow> (int \<times> string) option) \<Rightarrow> error + frac list" where
  "main_coeff k data =
     (case decode_points data k 1 [] of
        Inl e \<Rightarrow> Inl e
      | Inr points \<Rightarrow>
          (case main_system points k of
             Inl e \<Rightarrow> Inl e
           | Inr s \<Rightarrow> solve (fst s) (snd s)))"

definition main :: "int \<Rightarrow> (int \<Rightarrow> (int \<times> string) option) \<Rightarrow> error + int" where
  "main k data =
     (case main_coeff k data of
        Inl e \<Rightarrow> Inl e
      | Inr coeff \<Rightarrow>
          (case array_of coeff 0 of
             None \<Rightarrow> Inl TypeError
           | Some C \<Rightarrow> bigint_quot (num C) (den C)))"











text \<open>The rational \<open>n/1\<close>, which \<^verbatim>\<open>makeFrac(n)\<close> returns.\<close>

definition frac_of_int :: "int \<Rightarrow> frac" where
  "frac_of_int n = \<lparr>num = n, den = 1\<rparr>"

lemma makeFrac_int: "makeFrac n 1 = Inr (frac_of_int n)"
  by (simp add: makeFrac_normalize Rat.normalize_def frac_of_int_def)

lemma exact_row_stop: "\<not> j < k \<Longrightarrow> exact_row row x xpow k j = Inr row"
  by (subst exact_row.simps) simp

lemma exact_row_step:
  "j < k \<Longrightarrow> exact_row row x xpow k j =
     exact_row (row[j := frac_of_int xpow]) x (xpow * x) k (j + 1)"
  by (subst exact_row.simps) (simp add: makeFrac_int)

lemma exact_rows_stop: "\<not> i < k \<Longrightarrow> exact_rows s points k i = Inr s"
  by (subst exact_rows.simps) simp

lemma exact_rows_step:
  "i < k \<Longrightarrow> array_of points i = Some p \<Longrightarrow> exact_row (fst s ! i) (fst p) 1 k 0 = Inr row \<Longrightarrow>
     exact_rows s points k i =
       exact_rows ((fst s)[i := row], (snd s)[i := frac_of_int (snd p)]) points k (i + 1)"
  by (subst exact_rows.simps) (simp add: makeFrac_int)

lemma exact_row_nth:
  "length row = k \<Longrightarrow> j \<le> k \<Longrightarrow>
     \<exists>row'. exact_row row x xpow k j = Inr row' \<and> length row' = k \<and>
       (\<forall>t<k. row' ! t = (if t < j then row ! t else frac_of_int (xpow * x ^ (t - j))))"
proof (induction row x xpow k j rule: exact_row.induct)
  case (1 row x xpow k j)
  show ?case
  proof (cases "j < k")
    case False
    with "1.prems" show ?thesis by (simp add: exact_row_stop)
  next
    case True
    have q: "makeFrac xpow 1 = Inr (frac_of_int xpow)" by (rule makeFrac_int)
    obtain row' where ih: "exact_row (row[j := frac_of_int xpow]) x (xpow * x) k (j + 1) = Inr row'"
      "length row' = k"
      "\<forall>t<k. row' ! t = (if t < j + 1 then row[j := frac_of_int xpow] ! t
                           else frac_of_int (xpow * x * x ^ (t - (j + 1))))"
      using "1.IH" [OF True q] "1.prems" True by auto
    have eq: "exact_row row x xpow k j = Inr row'"
      using True ih(1) by (simp add: exact_row_step)
    have "row' ! t = (if t < j then row ! t else frac_of_int (xpow * x ^ (t - j)))" if t: "t < k" for t
    proof -
      consider "t < j" | "t = j" | "j < t" by linarith
      then show ?thesis
      proof cases
        case 1
        then show ?thesis using ih(3) t by simp
      next
        case 2
        then show ?thesis using ih(3) t "1.prems" by simp
      next
        case 3
        then have "t - j = Suc (t - (j + 1))" by simp
        then show ?thesis using ih(3) t 3 by (simp add: mult.assoc)
      qed
    qed
    then show ?thesis using eq ih(2) by blast
  qed
qed

lemma exact_row_eq:
  assumes "length row = k"
  shows "exact_row row x 1 k 0 = Inr (map (\<lambda>j. frac_of_int (x ^ j)) [0..<k])"
proof -
  obtain row' where r: "exact_row row x 1 k 0 = Inr row'" "length row' = k"
    "\<forall>t<k. row' ! t = frac_of_int (x ^ t)"
    using exact_row_nth [OF assms, of 0 x 1] by auto
  have "row' = map (\<lambda>j. frac_of_int (x ^ j)) [0..<k]"
    using r(2,3) by (intro nth_equalityI) auto
  then show ?thesis using r(1) by simp
qed

lemma exact_rows_eq:
  "length (fst s) = k \<Longrightarrow> length (snd s) = k \<Longrightarrow> length points = k \<Longrightarrow> i \<le> k \<Longrightarrow>
   \<forall>r<k. length (fst s ! r) = k \<Longrightarrow>
     exact_rows s points k i =
       Inr (take i (fst s) @ map (\<lambda>p. map (\<lambda>j. frac_of_int (fst p ^ j)) [0..<k]) (drop i points),
            take i (snd s) @ map (\<lambda>p. frac_of_int (snd p)) (drop i points))"
proof (induction s points k i rule: exact_rows.induct)
  case (1 s points k i)
  show ?case
  proof (cases "i < k")
    case False
    with "1.prems" show ?thesis by (simp add: exact_rows_stop)
  next
    case True
    let ?p = "points ! i"
    let ?row = "map (\<lambda>j. frac_of_int (fst ?p ^ j)) [0..<k]"
    let ?s' = "((fst s)[i := ?row], (snd s)[i := frac_of_int (snd ?p)])"
    have p: "array_of points i = Some ?p"
      using True "1.prems" by (simp add: array_of_def)
    have row: "exact_row (fst s ! i) (fst ?p) 1 k 0 = Inr ?row"
      using True "1.prems" by (simp add: exact_row_eq)
    have q: "makeFrac (snd ?p) 1 = Inr (frac_of_int (snd ?p))" by (rule makeFrac_int)
    have "exact_rows s points k i = exact_rows ?s' points k (i + 1)"
      using True p row by (rule exact_rows_step)
    also have "\<dots> = Inr (take (i + 1) (fst ?s') @ map (\<lambda>p. map (\<lambda>j. frac_of_int (fst p ^ j)) [0..<k]) (drop (i + 1) points),
            take (i + 1) (snd ?s') @ map (\<lambda>p. frac_of_int (snd p)) (drop (i + 1) points))"
      using "1.IH" [OF True p row q] "1.prems" True by (simp add: nth_list_update)
    also have "take (i + 1) (fst ?s') = take i (fst s) @ [?row]"
      using True "1.prems" by (simp add: take_Suc_conv_app_nth)
    also have "take (i + 1) (snd ?s') = take i (snd s) @ [frac_of_int (snd ?p)]"
      using True "1.prems" by (simp add: take_Suc_conv_app_nth)
    finally show ?thesis
      using True "1.prems" by (simp add: Cons_nth_drop_Suc [symmetric])
  qed
qed

lemma main_system_eq:
  assumes "length points = k" and "k < 4294967296"
  shows "main_system points (int k) =
           Inr (map (\<lambda>p. map (\<lambda>j. frac_of_int (fst p ^ j)) [0..<k]) points,
                map (\<lambda>p. frac_of_int (snd p)) points)"
  using assms
    exact_rows_eq [of "(replicate k (replicate k (frac_of_int 0)), replicate k (frac_of_int 0))" k points 0]
  by (simp add: main_system_def makeFrac_int)



section \<open>The approximate solver (index.js, solveLinearSystem)\<close>

text \<open>
  The claim about this function is a frame claim, and it depends on which arrays the
  writes reach, so arrays live in a store. An array of numbers is an object of \<open>nums\<close>
  and an array of rows (a matrix) an object of \<open>mats\<close>, whose elements are addresses
  into \<open>nums\<close>; an address is the position of the object, and allocation appends. An
  element of an array of numbers is \<open>None\<close> where JavaScript has \<^verbatim>\<open>undefined\<close>
  (a hole); a read out of range yields \<^verbatim>\<open>undefined\<close> and a write out of range
  extends the array.

  The arithmetic of Numbers is a parameter, the record \<open>arith\<close>: \<open>num_nan\<close> is the
  value of \<^verbatim>\<open>undefined\<close> as a number, \<open>num_is_zero\<close> is \<^verbatim>\<open>=== 0\<close>, \<open>num_gt\<close> is
  \<^verbatim>\<open>>\<close>, \<open>num_abs\<close> is \<^verbatim>\<open>Math.abs\<close>. What is proved below holds for every
  arithmetic, in particular for IEEE doubles.
\<close>

type_synonym addr = nat

record 'n heap =
  nums :: "'n option list list"
  mats :: "addr list list"

record 'n arith =
  num_nan :: 'n
  num_zero :: 'n
  num_abs :: "'n \<Rightarrow> 'n"
  num_gt :: "'n \<Rightarrow> 'n \<Rightarrow> bool"
  num_is_zero :: "'n \<Rightarrow> bool"
  num_add :: "'n \<Rightarrow> 'n \<Rightarrow> 'n"
  num_sub :: "'n \<Rightarrow> 'n \<Rightarrow> 'n"
  num_mul :: "'n \<Rightarrow> 'n \<Rightarrow> 'n"
  num_div :: "'n \<Rightarrow> 'n \<Rightarrow> 'n"

text \<open>Reads and writes of an array of numbers, and the element \<^verbatim>\<open>M[i]\<close> of a matrix.\<close>

definition to_number :: "'n arith \<Rightarrow> 'n option \<Rightarrow> 'n" where
  "to_number ar v = (case v of None \<Rightarrow> num_nan ar | Some w \<Rightarrow> w)"

definition elem :: "'a option list \<Rightarrow> nat \<Rightarrow> 'a option" where
  "elem xs j = (if j < length xs then xs ! j else None)"

definition store_elem :: "'a option list \<Rightarrow> nat \<Rightarrow> 'a option \<Rightarrow> 'a option list" where
  "store_elem xs j v =
     (if j < length xs then xs[j := v] else xs @ replicate (j - length xs) None @ [v])"

definition arr_get :: "'n heap \<Rightarrow> addr \<Rightarrow> nat \<Rightarrow> 'n option" where
  "arr_get h a j = elem (nums h ! a) j"

definition arr_set :: "'n heap \<Rightarrow> addr \<Rightarrow> nat \<Rightarrow> 'n option \<Rightarrow> 'n heap" where
  "arr_set h a j v = h\<lparr>nums := (nums h)[a := store_elem (nums h ! a) j v]\<rparr>"

definition row_ref :: "'n heap \<Rightarrow> addr \<Rightarrow> nat \<Rightarrow> addr" where
  "row_ref h M i = mats h ! M ! i"

text \<open>
  Allocation, \<^verbatim>\<open>row.slice()\<close> for each row in turn, and
  \<^verbatim>\<open>A.map(row => row.slice())\<close>: a new matrix of new rows.
\<close>

definition alloc_nums :: "'n heap \<Rightarrow> 'n option list \<Rightarrow> addr \<times> 'n heap" where
  "alloc_nums h xs = (length (nums h), h\<lparr>nums := nums h @ [xs]\<rparr>)"

definition alloc_mat :: "'n heap \<Rightarrow> addr list \<Rightarrow> addr \<times> 'n heap" where
  "alloc_mat h rs = (length (mats h), h\<lparr>mats := mats h @ [rs]\<rparr>)"

fun copy_rows :: "'n heap \<Rightarrow> addr list \<Rightarrow> addr list \<times> 'n heap" where
  "copy_rows h [] = ([], h)"
| "copy_rows h (a # as) =
     (let (c, h1) = alloc_nums h (nums h ! a);
          (cs, h2) = copy_rows h1 as
      in (c # cs, h2))"

definition copy_matrix :: "'n heap \<Rightarrow> addr \<Rightarrow> addr \<times> 'n heap" where
  "copy_matrix h A = (let (cs, h1) = copy_rows h (mats h ! A) in alloc_mat h1 cs)"

text \<open>
  The search for the pivot row: \<open>mx\<close> is the pair of \<open>maxVal\<close> and \<open>maxRow\<close>, and
  the loop is entered with \<open>r = k + 1\<close>.
\<close>

function approx_pivot ::
  "'n arith \<Rightarrow> 'n heap \<Rightarrow> addr \<Rightarrow> nat \<Rightarrow> nat \<Rightarrow> nat \<Rightarrow> 'n \<times> nat \<Rightarrow> 'n \<times> nat" where
  "approx_pivot ar h M n k r mx =
     (if r < n then
        (let val = num_abs ar (to_number ar (arr_get h (row_ref h M r) k))
         in approx_pivot ar h M n k (r + 1) (if num_gt ar val (fst mx) then (val, r) else mx))
      else mx)"
  by pat_completeness auto
termination
  by (relation "measure (\<lambda>(ar, h, M, n, k, r, mx). n - r)") auto

declare approx_pivot.simps [simp del]

text \<open>The two swaps; both right-hand sides are read before any write.\<close>

definition swap_mat :: "'n heap \<Rightarrow> addr \<Rightarrow> nat \<Rightarrow> nat \<Rightarrow> 'n heap" where
  "swap_mat h M k r =
     h\<lparr>mats := (mats h)[M := ((mats h ! M)[k := mats h ! M ! r])[r := mats h ! M ! k]]\<rparr>"

definition swap_num :: "'n heap \<Rightarrow> addr \<Rightarrow> nat \<Rightarrow> nat \<Rightarrow> 'n heap" where
  "swap_num h y k r = arr_set (arr_set h y k (arr_get h y r)) y r (arr_get h y k)"

text \<open>
  \<^verbatim>\<open>M[i][j] -= factor * M[k][j]\<close> for \<open>j\<close> from \<open>k\<close>; then the loop over the rows below
  \<open>k\<close> with \<^verbatim>\<open>y[i] -= factor * y[k]\<close>; then the loop over the columns, which throws
  when \<open>maxVal === 0\<close>. A throw leaves the store as it is at that point.
\<close>

function approx_elim_cols ::
  "'n arith \<Rightarrow> 'n heap \<Rightarrow> addr \<Rightarrow> nat \<Rightarrow> nat \<Rightarrow> nat \<Rightarrow> 'n \<Rightarrow> nat \<Rightarrow> 'n heap" where
  "approx_elim_cols ar h M n i k factor j =
     (if j < n then
        (let v = num_sub ar (to_number ar (arr_get h (row_ref h M i) j))
                   (num_mul ar factor (to_number ar (arr_get h (row_ref h M k) j)))
         in approx_elim_cols ar (arr_set h (row_ref h M i) j (Some v)) M n i k factor (j + 1))
      else h)"
  by pat_completeness auto
termination
  by (relation "measure (\<lambda>(ar, h, M, n, i, k, factor, j). n - j)") auto

declare approx_elim_cols.simps [simp del]

function approx_elim_rows ::
  "'n arith \<Rightarrow> 'n heap \<Rightarrow> addr \<Rightarrow> addr \<Rightarrow> nat \<Rightarrow> nat \<Rightarrow> nat \<Rightarrow> 'n heap" where
  "approx_elim_rows ar h M y n k i =
     (if i < n then
        (let factor = num_div ar (to_number ar (arr_get h (row_ref h M i) k))
                        (to_number ar (arr_get h (row_ref h M k) k));
             h1 = approx_elim_cols ar h M n i k factor k;
             v = num_sub ar (to_number ar (arr_get h1 y i))
                   (num_mul ar factor (to_number ar (arr_get h1 y k)))
         in approx_elim_rows ar (arr_set h1 y i (Some v)) M y n k (i + 1))
      else h)"
  by pat_completeness auto
termination
  by (relation "measure (\<lambda>(ar, h, M, y, n, k, i). n - i)") auto

declare approx_elim_rows.simps [simp del]

function approx_forward ::
  "'n arith \<Rightarrow> 'n heap \<Rightarrow> addr \<Rightarrow> addr \<Rightarrow> nat \<Rightarrow> nat \<Rightarrow> error option \<times> 'n heap" where
  "approx_forward ar h M y n k =
     (if k < n then
        (let mx = approx_pivot ar h M n k (k + 1)
                    (num_abs ar (to_number ar (arr_get h (row_ref h M k) k)), k)
         in if num_is_zero ar (fst mx) then (Some SingularMatrix, h)
            else
              approx_forward ar
                (approx_elim_rows ar
                   (if snd mx \<noteq> k then swap_num (swap_mat h M k (snd mx)) y k (snd mx) else h)
                   M y n k (k + 1))
                M y n (k + 1))
      else (None, h))"
  by pat_completeness auto
termination
  by (relation "measure (\<lambda>(ar, h, M, y, n, k). n - k)") auto

declare approx_forward.simps [simp del]

text \<open>Back substitution into the new array \<open>x\<close>.\<close>

function approx_back_sum ::
  "'n arith \<Rightarrow> 'n heap \<Rightarrow> addr \<Rightarrow> addr \<Rightarrow> nat \<Rightarrow> nat \<Rightarrow> nat \<Rightarrow> 'n \<Rightarrow> 'n" where
  "approx_back_sum ar h M x n i j acc =
     (if j < n then
        approx_back_sum ar h M x n i (j + 1)
          (num_add ar acc
             (num_mul ar (to_number ar (arr_get h (row_ref h M i) j)) (to_number ar (arr_get h x j))))
      else acc)"
  by pat_completeness auto
termination
  by (relation "measure (\<lambda>(ar, h, M, x, n, i, j, acc). n - j)") auto

declare approx_back_sum.simps [simp del]

fun approx_back_rows ::
  "'n arith \<Rightarrow> 'n heap \<Rightarrow> addr \<Rightarrow> addr \<Rightarrow> addr \<Rightarrow> nat \<Rightarrow> nat \<Rightarrow> 'n heap" where
  "approx_back_rows ar h M y x n 0 = h"
| "approx_back_rows ar h M y x n (Suc i) =
     (let acc = approx_back_sum ar h M x n i (i + 1) (num_zero ar);
          v = num_div ar (num_sub ar (to_number ar (arr_get h y i)) acc)
                (to_number ar (arr_get h (row_ref h M i) i))
      in approx_back_rows ar (arr_set h x i (Some v)) M y x n i)"

text \<open>
  The function returns the address of \<open>x\<close>, or the error, and the store after the call.
\<close>

definition solveLinearSystem ::
  "'n arith \<Rightarrow> 'n heap \<Rightarrow> addr \<Rightarrow> addr \<Rightarrow> (error + addr) \<times> 'n heap" where
  "solveLinearSystem ar h A b =
     (let n = length (mats h ! A);
          (M, h1) = copy_matrix h A;
          (y, h2) = alloc_nums h1 (nums h1 ! b)
      in case approx_forward ar h2 M y n 0 of
           (Some e, h3) \<Rightarrow> (Inl e, h3)
         | (None, h3) \<Rightarrow>
             (let (x, h4) = alloc_nums h3 (replicate n (Some (num_zero ar)))
              in (Inr x, approx_back_rows ar h4 M y x n n)))"

text \<open>
  \<open>frame h0 h\<close>: every object of \<open>h0\<close> is in \<open>h\<close> at the same address with the same
  contents. \<open>private_in h0 h M n\<close>: the matrix \<open>M\<close> and its \<open>n\<close> rows were allocated
  after \<open>h0\<close>.
\<close>

definition frame :: "'n heap \<Rightarrow> 'n heap \<Rightarrow> bool" where
  "frame h0 h \<longleftrightarrow>
     take (length (nums h0)) (nums h) = nums h0 \<and> take (length (mats h0)) (mats h) = mats h0"

definition private_in :: "'n heap \<Rightarrow> 'n heap \<Rightarrow> addr \<Rightarrow> nat \<Rightarrow> bool" where
  "private_in h0 h M n \<longleftrightarrow>
     length (mats h0) \<le> M \<and> M < length (mats h) \<and> length (mats h ! M) = n \<and>
     (\<forall>a\<in>set (mats h ! M). length (nums h0) \<le> a)"

lemma frame_refl: "frame h h"
  by (simp add: frame_def)

lemma take_eq_length: "take n xs = ys \<Longrightarrow> length ys = n \<Longrightarrow> n \<le> length xs"
  by (cases "n \<le> length xs") auto

lemma frame_length: "frame h0 h \<Longrightarrow> length (nums h0) \<le> length (nums h)"
  unfolding frame_def by (blast intro: take_eq_length)

lemma frame_length_mats: "frame h0 h \<Longrightarrow> length (mats h0) \<le> length (mats h)"
  unfolding frame_def by (blast intro: take_eq_length)

lemma arr_set_frame: "frame h0 h \<Longrightarrow> length (nums h0) \<le> a \<Longrightarrow> frame h0 (arr_set h a j v)"
  by (simp add: frame_def arr_set_def)

lemma arr_set_private: "private_in h0 h M n \<Longrightarrow> private_in h0 (arr_set h a j v) M n"
  by (simp add: private_in_def arr_set_def)

lemma arr_set_row: "row_ref (arr_set h a j v) M i = row_ref h M i"
  by (simp add: row_ref_def arr_set_def)

lemma swap_mat_frame: "frame h0 h \<Longrightarrow> length (mats h0) \<le> M \<Longrightarrow> frame h0 (swap_mat h M k r)"
  by (simp add: frame_def swap_mat_def)

lemma swap_mat_private:
  assumes "private_in h0 h M n" and "k < n" and "r < n"
  shows "private_in h0 (swap_mat h M k r) M n"
proof -
  let ?xs = "mats h ! M"
  have len: "length ?xs = n" and M: "M < length (mats h)"
    using assms(1) by (simp_all add: private_in_def)
  have "set ((?xs[k := ?xs ! r])[r := ?xs ! k]) \<subseteq> insert (?xs ! k) (set (?xs[k := ?xs ! r]))"
    by (rule set_update_subset_insert)
  also have "\<dots> \<subseteq> insert (?xs ! k) (insert (?xs ! r) (set ?xs))"
    using set_update_subset_insert [of ?xs k "?xs ! r"] by blast
  also have "\<dots> = set ?xs"
    using assms(2,3) len by (simp add: insert_absorb)
  finally have "set ((?xs[k := ?xs ! r])[r := ?xs ! k]) \<subseteq> set ?xs" .
  then show ?thesis
    using assms(1) M len by (auto simp: private_in_def swap_mat_def)
qed

lemma row_fresh: "private_in h0 h M n \<Longrightarrow> i < n \<Longrightarrow> length (nums h0) \<le> row_ref h M i"
  by (simp add: private_in_def row_ref_def)

lemma swap_num_frame: "frame h0 h \<Longrightarrow> length (nums h0) \<le> y \<Longrightarrow> frame h0 (swap_num h y k r)"
  by (simp add: swap_num_def arr_set_frame)

lemma swap_num_private: "private_in h0 h M n \<Longrightarrow> private_in h0 (swap_num h y k r) M n"
  by (simp add: swap_num_def arr_set_private)

lemma approx_elim_cols_inv:
  "frame h0 h \<Longrightarrow> private_in h0 h M n \<Longrightarrow> i < n \<Longrightarrow>
     frame h0 (approx_elim_cols ar h M n i k factor j) \<and>
     private_in h0 (approx_elim_cols ar h M n i k factor j) M n"
proof (induction ar h M n i k factor j rule: approx_elim_cols.induct)
  case (1 ar h M n i k factor j)
  show ?case
  proof (cases "j < n")
    case False
    then have "approx_elim_cols ar h M n i k factor j = h"
      by (subst approx_elim_cols.simps) simp
    with "1.prems" show ?thesis by simp
  next
    case True
    define v where "v = num_sub ar (to_number ar (arr_get h (row_ref h M i) j))
                   (num_mul ar factor (to_number ar (arr_get h (row_ref h M k) j)))"
    let ?h = "arr_set h (row_ref h M i) j (Some v)"
    have eq: "approx_elim_cols ar h M n i k factor j = approx_elim_cols ar ?h M n i k factor (j + 1)"
      using True by (subst approx_elim_cols.simps) (simp add: v_def Let_def)
    have "frame h0 ?h" "private_in h0 ?h M n"
      using "1.prems" by (simp_all add: arr_set_frame arr_set_private row_fresh)
    with "1.IH" [OF True v_def] "1.prems"(3) eq show ?thesis by simp
  qed
qed

lemma approx_elim_rows_inv:
  "frame h0 h \<Longrightarrow> private_in h0 h M n \<Longrightarrow> length (nums h0) \<le> y \<Longrightarrow>
     frame h0 (approx_elim_rows ar h M y n k i) \<and>
     private_in h0 (approx_elim_rows ar h M y n k i) M n"
proof (induction ar h M y n k i rule: approx_elim_rows.induct)
  case (1 ar h M y n k i)
  show ?case
  proof (cases "i < n")
    case False
    then have "approx_elim_rows ar h M y n k i = h"
      by (subst approx_elim_rows.simps) simp
    with "1.prems" show ?thesis by simp
  next
    case True
    define factor where "factor = num_div ar (to_number ar (arr_get h (row_ref h M i) k))
                        (to_number ar (arr_get h (row_ref h M k) k))"
    define h1 where "h1 = approx_elim_cols ar h M n i k factor k"
    define v where "v = num_sub ar (to_number ar (arr_get h1 y i))
                   (num_mul ar factor (to_number ar (arr_get h1 y k)))"
    let ?h = "arr_set h1 y i (Some v)"
    have eq: "approx_elim_rows ar h M y n k i = approx_elim_rows ar ?h M y n k (i + 1)"
      using True by (subst approx_elim_rows.simps) (simp add: v_def h1_def factor_def Let_def)
    have "frame h0 h1" "private_in h0 h1 M n"
      using approx_elim_cols_inv [OF "1.prems"(1,2) True] by (simp_all add: h1_def)
    then have "frame h0 ?h" "private_in h0 ?h M n"
      using "1.prems"(3) by (simp_all add: arr_set_frame arr_set_private)
    with "1.IH" [OF True factor_def h1_def v_def] "1.prems"(3) eq show ?thesis by simp
  qed
qed

lemma approx_pivot_bound: "snd mx < n \<Longrightarrow> snd (approx_pivot ar h M n k r mx) < n"
proof (induction ar h M n k r mx rule: approx_pivot.induct)
  case (1 ar h M n k r mx)
  show ?case
  proof (cases "r < n")
    case False
    then have "approx_pivot ar h M n k r mx = mx"
      by (subst approx_pivot.simps) simp
    with "1.prems" show ?thesis by simp
  next
    case True
    define val where "val = num_abs ar (to_number ar (arr_get h (row_ref h M r) k))"
    let ?mx = "if num_gt ar val (fst mx) then (val, r) else mx"
    have eq: "approx_pivot ar h M n k r mx = approx_pivot ar h M n k (r + 1) ?mx"
      using True by (subst approx_pivot.simps) (simp add: val_def Let_def)
    have "snd ?mx < n" using True "1.prems" by simp
    with "1.IH" [OF True val_def] eq show ?thesis by simp
  qed
qed

lemma approx_forward_frame:
  "frame h0 h \<Longrightarrow> private_in h0 h M n \<Longrightarrow> length (nums h0) \<le> y \<Longrightarrow>
     frame h0 (snd (approx_forward ar h M y n k))"
proof (induction ar h M y n k rule: approx_forward.induct)
  case (1 ar h M y n k)
  show ?case
  proof (cases "k < n")
    case False
    then have "approx_forward ar h M y n k = (None, h)"
      by (subst approx_forward.simps) simp
    with "1.prems" show ?thesis by simp
  next
    case True
    define mx where "mx = approx_pivot ar h M n k (k + 1)
                    (num_abs ar (to_number ar (arr_get h (row_ref h M k) k)), k)"
    show ?thesis
    proof (cases "num_is_zero ar (fst mx)")
      case zero: True
      then have "approx_forward ar h M y n k = (Some SingularMatrix, h)"
        using True by (subst approx_forward.simps) (simp add: mx_def Let_def)
      with "1.prems" show ?thesis by simp
    next
      case nz: False
      let ?h1 = "if snd mx \<noteq> k then swap_num (swap_mat h M k (snd mx)) y k (snd mx) else h"
      let ?h2 = "approx_elim_rows ar ?h1 M y n k (k + 1)"
      have eq: "approx_forward ar h M y n k = approx_forward ar ?h2 M y n (k + 1)"
        using True nz by (subst approx_forward.simps) (simp add: mx_def Let_def)
      have r: "snd mx < n"
        unfolding mx_def using True by (intro approx_pivot_bound) simp
      have M: "length (mats h0) \<le> M" using "1.prems"(2) by (simp add: private_in_def)
      have "frame h0 ?h1" "private_in h0 ?h1 M n"
        using "1.prems" True r M
        by (simp_all add: swap_num_frame swap_mat_frame swap_num_private swap_mat_private)
      then have "frame h0 ?h2" "private_in h0 ?h2 M n"
        using approx_elim_rows_inv [of h0 ?h1 M n y ar k "k + 1"] "1.prems"(3) by simp_all
      with "1.IH" [OF True mx_def nz] "1.prems"(3) eq show ?thesis by simp
    qed
  qed
qed

lemma approx_back_rows_frame:
  "frame h0 h \<Longrightarrow> length (nums h0) \<le> x \<Longrightarrow> frame h0 (approx_back_rows ar h M y x n i)"
proof (induction i arbitrary: h)
  case 0
  then show ?case by simp
next
  case (Suc i)
  then show ?case by (simp add: Let_def arr_set_frame)
qed

lemma alloc_nums_frame: "frame h0 h \<Longrightarrow> frame h0 (snd (alloc_nums h xs))"
  using frame_length [of h0 h] by (simp add: frame_def alloc_nums_def)

lemma alloc_nums_addr: "frame h0 h \<Longrightarrow> length (nums h0) \<le> fst (alloc_nums h xs)"
  using frame_length [of h0 h] by (simp add: alloc_nums_def)

lemma alloc_nums_private: "private_in h0 h M n \<Longrightarrow> private_in h0 (snd (alloc_nums h xs)) M n"
  by (simp add: private_in_def alloc_nums_def)

lemma copy_rows_inv:
  "frame h0 h \<Longrightarrow>
     frame h0 (snd (copy_rows h as)) \<and> length (fst (copy_rows h as)) = length as \<and>
     (\<forall>a\<in>set (fst (copy_rows h as)). length (nums h0) \<le> a)"
proof (induction as arbitrary: h)
  case Nil
  then show ?case by simp
next
  case (Cons a as)
  let ?h1 = "snd (alloc_nums h (nums h ! a))"
  have f1: "frame h0 ?h1" using Cons.prems by (rule alloc_nums_frame)
  have a1: "length (nums h0) \<le> fst (alloc_nums h (nums h ! a))"
    using Cons.prems by (rule alloc_nums_addr)
  from Cons.IH [OF f1] a1 show ?case
    by (simp add: split_def Let_def)
qed

lemma copy_matrix_inv:
  "frame h (snd (copy_matrix h A)) \<and>
   private_in h (snd (copy_matrix h A)) (fst (copy_matrix h A)) (length (mats h ! A))"
proof -
  let ?c = "copy_rows h (mats h ! A)"
  have c: "frame h (snd ?c)" "length (fst ?c) = length (mats h ! A)"
    "\<forall>a\<in>set (fst ?c). length (nums h) \<le> a"
    using copy_rows_inv [OF frame_refl, of h "mats h ! A"] by simp_all
  have len: "length (mats h) \<le> length (mats (snd ?c))"
    using c(1) by (rule frame_length_mats)
  show ?thesis
    using c len frame_length [OF c(1)]
    by (simp add: copy_matrix_def alloc_mat_def split_def Let_def frame_def private_in_def)
qed

text \<open>
  C7. solveLinearSystem never mutates its inputs: whether it returns or throws, every
  array that existed before the call (the matrix A, each of its rows, the vector b, and
  any other) holds after the call exactly the values it held before. All writes go to the
  copies \<open>M\<close> and \<open>y\<close> and to the result \<open>x\<close>.
\<close>

theorem solveLinearSystem_frame:
  "take (length (nums h)) (nums (snd (solveLinearSystem ar h A b))) = nums h
   \<and> take (length (mats h)) (mats (snd (solveLinearSystem ar h A b))) = mats h"
proof -
  define n where "n = length (mats h ! A)"
  define M where "M = fst (copy_matrix h A)"
  define h1 where "h1 = snd (copy_matrix h A)"
  define y where "y = fst (alloc_nums h1 (nums h1 ! b))"
  define h2 where "h2 = snd (alloc_nums h1 (nums h1 ! b))"
  define r where "r = approx_forward ar h2 M y n 0"
  have 1: "frame h h1" "private_in h h1 M n"
    using copy_matrix_inv [of h A] by (simp_all add: h1_def M_def n_def)
  have 2: "frame h h2" "private_in h h2 M n" "length (nums h) \<le> y"
    using 1 by (simp_all add: h2_def y_def alloc_nums_frame alloc_nums_private alloc_nums_addr)
  have 3: "frame h (snd r)"
    unfolding r_def using 2 by (rule approx_forward_frame)
  have "frame h (snd (solveLinearSystem ar h A b))"
  proof (cases "fst r")
    case (Some e)
    then have "solveLinearSystem ar h A b = (Inl e, snd r)"
      by (simp add: solveLinearSystem_def Let_def split_def n_def M_def h1_def y_def h2_def r_def)
    with 3 show ?thesis by simp
  next
    case None
    let ?a = "alloc_nums (snd r) (replicate n (Some (num_zero ar)))"
    have "solveLinearSystem ar h A b = (Inr (fst ?a), approx_back_rows ar (snd ?a) M y (fst ?a) n n)"
      using None
      by (simp add: solveLinearSystem_def Let_def split_def n_def M_def h1_def y_def h2_def r_def)
    moreover have "frame h (approx_back_rows ar (snd ?a) M y (fst ?a) n n)"
      using 3 by (intro approx_back_rows_frame alloc_nums_frame alloc_nums_addr)
    ultimately show ?thesis by simp
  qed
  then show ?thesis by (simp add: frame_def)
qed

text \<open>
  The model run with exact rational arithmetic on the system with rows (0, 1) and (1, 2)
  and right-hand side (1, 2): the rows are swapped in the copy only, and the solution
  (0, 1) is the new array at address 6. With the same row twice it throws.
\<close>

definition rat_arith :: "rat arith" where
  "rat_arith = \<lparr>num_nan = 0, num_zero = 0, num_abs = abs, num_gt = (\<lambda>a b. a > b),
     num_is_zero = (\<lambda>a. a = 0), num_add = (+), num_sub = (-), num_mul = (*), num_div = (/)\<rparr>"

lemma solveLinearSystem_example:
  "solveLinearSystem rat_arith
     \<lparr>nums = [[Some 0, Some 1], [Some 1, Some 2], [Some 1, Some 2]], mats = [[0, 1]]\<rparr> 0 2
   = (Inr 6,
      \<lparr>nums = [[Some 0, Some 1], [Some 1, Some 2], [Some 1, Some 2],
               [Some 0, Some 1], [Some 1, Some 2], [Some 2, Some 1], [Some 0, Some 1]],
       mats = [[0, 1], [4, 3]]\<rparr>)"
  by code_simp

lemma solveLinearSystem_singular_example:
  "fst (solveLinearSystem rat_arith
     \<lparr>nums = [[Some 1, Some 1], [Some 1, Some 2]], mats = [[0, 0]]\<rparr> 0 1)
   = Inl SingularMatrix"
  by code_simp

section \<open>The exact pipeline recovers the constant term\<close>

subsection \<open>Linear systems over the rationals\<close>

text \<open>
  For the proof, a system of \<open>n\<close> equations is a function \<open>G\<close> from rows and columns
  to rationals, with the right-hand side in column \<open>n\<close>. \<open>sols n G c v\<close> says that
  the vector \<open>v\<close> satisfies every equation with the right-hand side scaled by \<open>c\<close>:
  \<open>c = 1\<close> gives the solutions and \<open>c = 0\<close> the kernel. \<open>lower_zero n G col\<close> and
  \<open>diag_nz G col\<close> describe the first \<open>col\<close> columns after elimination, and
  \<open>inj_sys n G\<close> says that the kernel is trivial.
\<close>

definition sols :: "nat \<Rightarrow> (nat \<Rightarrow> nat \<Rightarrow> rat) \<Rightarrow> rat \<Rightarrow> (nat \<Rightarrow> rat) \<Rightarrow> bool" where
  "sols n G c v \<longleftrightarrow> (\<forall>r<n. (\<Sum>j<n. G r j * v j) = c * G r n)"

definition lower_zero :: "nat \<Rightarrow> (nat \<Rightarrow> nat \<Rightarrow> rat) \<Rightarrow> nat \<Rightarrow> bool" where
  "lower_zero n G col \<longleftrightarrow> (\<forall>c<col. \<forall>r<n. c < r \<longrightarrow> G r c = 0)"

definition diag_nz :: "(nat \<Rightarrow> nat \<Rightarrow> rat) \<Rightarrow> nat \<Rightarrow> bool" where
  "diag_nz G col \<longleftrightarrow> (\<forall>c<col. G c c \<noteq> 0)"

definition inj_sys :: "nat \<Rightarrow> (nat \<Rightarrow> nat \<Rightarrow> rat) \<Rightarrow> bool" where
  "inj_sys n G \<longleftrightarrow> (\<forall>v. sols n G 0 v \<longrightarrow> (\<forall>j<n. v j = 0))"

text \<open>Row operations keep the solutions: subtracting multiples of one row, and swapping two rows.\<close>

lemma sols_rowop:
  assumes p: "p < n"
    and same: "\<And>j. j \<le> n \<Longrightarrow> G' p j = G p j"
    and other: "\<And>r j. r < n \<Longrightarrow> r \<noteq> p \<Longrightarrow> j \<le> n \<Longrightarrow> G' r j = G r j - f r * G p j"
  shows "sols n G' c v = sols n G c v"
proof -
  have rowp: "(\<Sum>j<n. G' p j * v j) = (\<Sum>j<n. G p j * v j)"
    by (intro sum.cong) (simp_all add: same)
  have rowr: "(\<Sum>j<n. G' r j * v j) = (\<Sum>j<n. G r j * v j) - f r * (\<Sum>j<n. G p j * v j)"
    if "r < n" "r \<noteq> p" for r
  proof -
    have "(\<Sum>j<n. G' r j * v j) = (\<Sum>j<n. G r j * v j - f r * (G p j * v j))"
      using that by (intro sum.cong) (simp_all add: other left_diff_distrib mult.assoc)
    then show ?thesis by (simp add: sum_subtractf sum_distrib_left)
  qed
  show ?thesis
  proof
    assume L: "sols n G' c v"
    have P: "(\<Sum>j<n. G p j * v j) = c * G p n"
      using L p rowp same [of n] by (simp add: sols_def)
    show "sols n G c v"
      unfolding sols_def
    proof (intro allI impI)
      fix r assume r: "r < n"
      show "(\<Sum>j<n. G r j * v j) = c * G r n"
      proof (cases "r = p")
        case True
        then show ?thesis using P by simp
      next
        case False
        have "(\<Sum>j<n. G' r j * v j) = c * G' r n" using L r by (simp add: sols_def)
        then have "(\<Sum>j<n. G r j * v j) = c * G' r n + f r * (c * G p n)"
          using rowr [OF r False] P by simp
        also have "\<dots> = c * G r n"
          by (simp add: other [OF r False] algebra_simps)
        finally show ?thesis .
      qed
    qed
  next
    assume R: "sols n G c v"
    have P: "(\<Sum>j<n. G p j * v j) = c * G p n"
      using R p by (simp add: sols_def)
    show "sols n G' c v"
      unfolding sols_def
    proof (intro allI impI)
      fix r assume r: "r < n"
      show "(\<Sum>j<n. G' r j * v j) = c * G' r n"
      proof (cases "r = p")
        case True
        then show ?thesis using P rowp same [of n] by simp
      next
        case False
        have "(\<Sum>j<n. G r j * v j) = c * G r n" using R r by (simp add: sols_def)
        then have "(\<Sum>j<n. G' r j * v j) = c * G r n - f r * (c * G p n)"
          using rowr [OF r False] P by simp
        also have "\<dots> = c * G' r n"
          by (simp add: other [OF r False] algebra_simps)
        finally show ?thesis .
      qed
    qed
  qed
qed

lemma sols_cong:
  assumes "\<And>r j. r < n \<Longrightarrow> j \<le> n \<Longrightarrow> G' r j = G r j"
  shows "sols n G' c v = sols n G c v"
proof -
  have "(\<Sum>j<n. G' r j * v j) = (\<Sum>j<n. G r j * v j)" if "r < n" for r
    using that by (intro sum.cong) (simp_all add: assms)
  then show ?thesis using assms [of _ n] by (simp add: sols_def)
qed

lemma sols_swap:
  assumes a: "a < n" and b: "b < n"
    and Ga: "\<And>j. j \<le> n \<Longrightarrow> G' a j = G b j"
    and Gb: "\<And>j. j \<le> n \<Longrightarrow> G' b j = G a j"
    and other: "\<And>r j. r < n \<Longrightarrow> r \<noteq> a \<Longrightarrow> r \<noteq> b \<Longrightarrow> j \<le> n \<Longrightarrow> G' r j = G r j"
  shows "sols n G' c v = sols n G c v"
proof -
  have sa: "(\<Sum>j<n. G' a j * v j) = (\<Sum>j<n. G b j * v j)"
    by (intro sum.cong) (simp_all add: Ga)
  have sb: "(\<Sum>j<n. G' b j * v j) = (\<Sum>j<n. G a j * v j)"
    by (intro sum.cong) (simp_all add: Gb)
  have so: "(\<Sum>j<n. G' r j * v j) = (\<Sum>j<n. G r j * v j)" if "r < n" "r \<noteq> a" "r \<noteq> b" for r
    using that by (intro sum.cong) (simp_all add: other)
  show ?thesis
  proof
    assume L: "sols n G' c v"
    show "sols n G c v"
      unfolding sols_def
    proof (intro allI impI)
      fix r assume r: "r < n"
      consider "r = a" | "r = b" | "r \<noteq> a" "r \<noteq> b" by blast
      then show "(\<Sum>j<n. G r j * v j) = c * G r n"
      proof cases
        case 1
        then show ?thesis using L b sb Gb [of n] by (simp add: sols_def)
      next
        case 2
        then show ?thesis using L a sa Ga [of n] by (simp add: sols_def)
      next
        case 3
        then show ?thesis using L r so [OF r] other [OF r, of n] by (simp add: sols_def)
      qed
    qed
  next
    assume R: "sols n G c v"
    show "sols n G' c v"
      unfolding sols_def
    proof (intro allI impI)
      fix r assume r: "r < n"
      consider "r = a" | "r = b" "r \<noteq> a" | "r \<noteq> a" "r \<noteq> b" by blast
      then show "(\<Sum>j<n. G' r j * v j) = c * G' r n"
      proof cases
        case 1
        then show ?thesis using R b sa Ga [of n] by (simp add: sols_def)
      next
        case 2
        then show ?thesis using R a sb Gb [of n] by (simp add: sols_def)
      next
        case 3
        then show ?thesis using R r so [OF r] other [OF r, of n] by (simp add: sols_def)
      qed
    qed
  qed
qed


text \<open>
  When the first \<open>col\<close> columns are eliminated with non-zero pivots and column \<open>col\<close>
  has no pivot candidate, the kernel has a vector with a one at \<open>col\<close>. So a system with
  a trivial kernel always has a pivot.
\<close>

lemma sum_fun_upd:
  fixes g v :: "nat \<Rightarrow> rat"
  assumes "t < n"
  shows "(\<Sum>j<n. g j * (v(t := a)) j) = (\<Sum>j<n. g j * v j) + g t * (a - v t)"
proof -
  have t: "t \<in> {..<n}" using assms by simp
  have "(\<Sum>j<n. g j * (v(t := a)) j) = g t * a + (\<Sum>j\<in>{..<n} - {t}. g j * (v(t := a)) j)"
    using sum.remove [OF _ t, of "\<lambda>j. g j * (v(t := a)) j"] by simp
  also have "(\<Sum>j\<in>{..<n} - {t}. g j * (v(t := a)) j) = (\<Sum>j\<in>{..<n} - {t}. g j * v j)"
    by (intro sum.cong) simp_all
  also have "(\<Sum>j<n. g j * v j) = g t * v t + (\<Sum>j\<in>{..<n} - {t}. g j * v j)"
    using sum.remove [OF _ t, of "\<lambda>j. g j * v j"] by simp
  then have "(\<Sum>j\<in>{..<n} - {t}. g j * v j) = (\<Sum>j<n. g j * v j) - g t * v t" by simp
  finally show ?thesis by (simp add: algebra_simps)
qed

lemma kernel_vector_aux:
  assumes col: "col < n" and lz: "lower_zero n G col" and dn: "diag_nz G col"
    and zc: "\<And>r. col \<le> r \<Longrightarrow> r < n \<Longrightarrow> G r col = 0"
  shows "k \<le> col \<Longrightarrow>
    \<exists>v. v col = 1 \<and> (\<forall>j. col < j \<longrightarrow> v j = 0) \<and>
        (\<forall>r<n. col - k \<le> r \<longrightarrow> (\<Sum>j<n. G r j * v j) = 0)"
proof (induction k)
  case 0
  let ?v = "\<lambda>j. if j = col then (1::rat) else 0"
  have "(\<Sum>j<n. G r j * ?v j) = 0" if "r < n" "col \<le> r" for r
  proof -
    have "(\<Sum>j<n. G r j * ?v j) = (\<Sum>j<n. if j = col then G r col else 0)"
      by (intro sum.cong) simp_all
    also have "\<dots> = G r col" using col by simp
    finally show ?thesis using zc that by simp
  qed
  then show ?case by (intro exI [of _ ?v]) simp
next
  case (Suc k)
  then obtain v where v: "v col = 1" "\<forall>j. col < j \<longrightarrow> v j = 0"
    "\<forall>r<n. col - k \<le> r \<longrightarrow> (\<Sum>j<n. G r j * v j) = 0"
    by auto
  define t where "t = col - Suc k"
  have t: "t < col" "col - k = Suc t" "t < n" using Suc.prems col by (simp_all add: t_def)
  define S where "S = (\<Sum>j<n. G t j * v j)"
  have nz: "G t t \<noteq> 0" using dn t(1) by (simp add: diag_nz_def)
  let ?v = "v(t := v t - S / G t t)"
  have rows: "(\<Sum>j<n. G r j * ?v j) = 0" if r: "r < n" "t \<le> r" for r
  proof (cases "r = t")
    case True
    have "(\<Sum>j<n. G t j * ?v j) = S + G t t * (v t - S / G t t - v t)"
      using sum_fun_upd [OF t(3), of "G t" v] by (simp add: S_def)
    also have "\<dots> = 0" using nz by simp
    finally show ?thesis using True by simp
  next
    case False
    then have gt: "t < r" using r by simp
    then have z: "G r t = 0" using lz t(1) r(1) by (simp add: lower_zero_def)
    have "(\<Sum>j<n. G r j * v j) = 0" using v(3) r(1) gt t(2) by simp
    then show ?thesis using sum_fun_upd [OF t(3), of "G r" v] z by simp
  qed
  show ?case
  proof (intro exI [of _ ?v] conjI allI impI)
    show "?v col = 1" using v(1) t(1) by simp
  next
    fix j assume "col < j"
    then show "?v j = 0" using v(2) t(1) by simp
  next
    fix r assume "r < n" "col - Suc k \<le> r"
    then show "(\<Sum>j<n. G r j * ?v j) = 0" using rows by (simp add: t_def)
  qed
qed

lemma kernel_vector:
  assumes "col < n" and "lower_zero n G col" and "diag_nz G col"
    and "\<And>r. col \<le> r \<Longrightarrow> r < n \<Longrightarrow> G r col = 0"
  shows "\<exists>v. sols n G 0 v \<and> v col = 1"
proof -
  obtain v where "v col = 1" "\<forall>r<n. col - col \<le> r \<longrightarrow> (\<Sum>j<n. G r j * v j) = 0"
    using kernel_vector_aux [OF assms, of col] by auto
  then show ?thesis by (intro exI [of _ v]) (simp add: sols_def)
qed

lemma pivot_exists:
  assumes inj: "inj_sys n G" and col: "col < n" and lz: "lower_zero n G col" and dn: "diag_nz G col"
  shows "\<exists>r. col \<le> r \<and> r < n \<and> G r col \<noteq> 0"
proof (rule ccontr)
  assume "\<not> ?thesis"
  then have "\<And>r. col \<le> r \<Longrightarrow> r < n \<Longrightarrow> G r col = 0" by blast
  from kernel_vector [OF col lz dn this] obtain v where "sols n G 0 v" "v col = 1" by blast
  then show False using inj col by (auto simp: inj_sys_def)
qed

text \<open>
  A vector that satisfies the back-substitution equations of a triangular system solves
  it, and a system with a trivial kernel has at most one solution.
\<close>

lemma sum_split_row:
  fixes f :: "nat \<Rightarrow> rat"
  assumes "r < n"
  shows "(\<Sum>j<n. f j) = (\<Sum>j<r. f j) + f r + (\<Sum>j = Suc r..<n. f j)"
proof -
  have "(\<Sum>j<n. f j) = (\<Sum>j = 0..<r. f j) + (\<Sum>j = r..<n. f j)"
    using assms by (simp add: lessThan_atLeast0 sum.atLeastLessThan_concat)
  also have "(\<Sum>j = r..<n. f j) = f r + (\<Sum>j = Suc r..<n. f j)"
    using assms by (simp add: sum.atLeast_Suc_lessThan)
  finally show ?thesis by (simp add: lessThan_atLeast0)
qed

lemma upper_solution:
  assumes lz: "lower_zero n G n"
    and eqs: "\<And>r. r < n \<Longrightarrow> G r r * x r + (\<Sum>j = Suc r..<n. G r j * x j) = G r n"
  shows "sols n G 1 x"
  unfolding sols_def
proof (intro allI impI)
  fix r assume r: "r < n"
  have "(\<Sum>j<r. G r j * x j) = 0"
  proof (intro sum.neutral ballI)
    fix j assume "j \<in> {..<r}"
    then have "G r j = 0" using lz r by (simp add: lower_zero_def)
    then show "G r j * x j = 0" by simp
  qed
  then show "(\<Sum>j<n. G r j * x j) = 1 * G r n"
    using sum_split_row [OF r, of "\<lambda>j. G r j * x j"] eqs [OF r] by simp
qed

lemma sols_unique:
  assumes inj: "inj_sys n G" and x: "sols n G 1 x" and y: "sols n G 1 y" and j: "j < n"
  shows "x j = y j"
proof -
  have "sols n G 0 (\<lambda>j. x j - y j)"
    unfolding sols_def
  proof (intro allI impI)
    fix r assume r: "r < n"
    have "(\<Sum>j<n. G r j * (x j - y j)) = (\<Sum>j<n. G r j * x j) - (\<Sum>j<n. G r j * y j)"
      by (simp add: right_diff_distrib sum_subtractf)
    then show "(\<Sum>j<n. G r j * (x j - y j)) = 0 * G r n"
      using x y r by (simp add: sols_def)
  qed
  then show ?thesis using inj j by (auto simp: inj_sys_def)
qed

subsection \<open>Polynomials and the Vandermonde system\<close>

text \<open>
  \<open>peval cs t\<close> is the value at \<open>t\<close> of the polynomial with the coefficients \<open>cs\<close>,
  constant term first. A polynomial with as many distinct roots as coefficients has only
  zero coefficients (by splitting off a linear factor), hence the system with the rows
  \<open>1, x, x^2, \<dots>\<close> for \<open>x = 1, \<dots>, n\<close> has a trivial kernel.
\<close>

fun peval :: "'a::idom list \<Rightarrow> 'a \<Rightarrow> 'a" where
  "peval [] t = 0"
| "peval (c # cs) t = c + t * peval cs t"

lemma peval_sum: "peval cs t = (\<Sum>j<length cs. cs ! j * t ^ j)"
proof (induction cs)
  case Nil
  then show ?case by simp
next
  case (Cons c cs)
  have "(\<Sum>j<Suc (length cs). (c # cs) ! j * t ^ j) =
      (c # cs) ! 0 * t ^ 0 + (\<Sum>j<length cs. (c # cs) ! Suc j * t ^ Suc j)"
    by (rule sum.lessThan_Suc_shift)
  then have "(\<Sum>j<length (c # cs). (c # cs) ! j * t ^ j) = c + (\<Sum>j<length cs. cs ! j * t ^ Suc j)"
    by simp
  also have "(\<Sum>j<length cs. cs ! j * t ^ Suc j) = t * (\<Sum>j<length cs. cs ! j * t ^ j)"
    by (simp add: sum_distrib_left mult.assoc mult.left_commute)
  finally show ?case using Cons.IH by simp
qed

lemma linear_factor:
  "\<exists>q r. length q = length cs \<and> (\<forall>t. peval (c # cs) t = r + (t - a) * peval q t) \<and>
         (r = 0 \<and> (\<forall>x\<in>set q. x = 0) \<longrightarrow> c = 0 \<and> (\<forall>x\<in>set cs. x = 0))"
proof (induction cs arbitrary: c)
  case Nil
  show ?case by (intro exI [of _ "[]"] exI [of _ c]) simp
next
  case (Cons d ds)
  obtain q r where q: "length q = length ds" "\<forall>t. peval (d # ds) t = r + (t - a) * peval q t"
    "r = 0 \<and> (\<forall>x\<in>set q. x = 0) \<longrightarrow> d = 0 \<and> (\<forall>x\<in>set ds. x = 0)"
    using Cons.IH [of d] by blast
  have A: "\<forall>t. peval (c # d # ds) t = (c + a * r) + (t - a) * peval (r # q) t"
  proof
    fix t
    have "peval (d # ds) t = r + (t - a) * peval q t"
      using q(2) by blast
    then have "peval (c # d # ds) t = c + t * (r + (t - a) * peval q t)"
      by (simp only: peval.simps(2) [of c "d # ds"])
    also have "\<dots> = (c + a * r) + (t - a) * (r + t * peval q t)"
      by (simp add: algebra_simps)
    also have "\<dots> = (c + a * r) + (t - a) * peval (r # q) t"
      by simp
    finally show "peval (c # d # ds) t = (c + a * r) + (t - a) * peval (r # q) t" .
  qed
  have B: "c + a * r = 0 \<and> (\<forall>x\<in>set (r # q). x = 0) \<longrightarrow> c = 0 \<and> (\<forall>x\<in>set (d # ds). x = 0)"
  proof
    assume h: "c + a * r = 0 \<and> (\<forall>x\<in>set (r # q). x = 0)"
    then have "r = 0" "\<forall>x\<in>set q. x = 0" by simp_all
    with q(3) h show "c = 0 \<and> (\<forall>x\<in>set (d # ds). x = 0)" by simp
  qed
  have C: "length (r # q) = length (d # ds)" using q(1) by simp
  from A B C show ?case by blast
qed

lemma roots_zero:
  "length p = n \<Longrightarrow> finite S \<Longrightarrow> n \<le> card S \<Longrightarrow> \<forall>t\<in>S. peval p t = 0 \<Longrightarrow> \<forall>x\<in>set p. x = 0"
proof (induction n arbitrary: p S)
  case 0
  then show ?case by simp
next
  case (Suc n)
  from Suc.prems(1) obtain c cs where p: "p = c # cs" and cs: "length cs = n"
    by (cases p) auto
  from Suc.prems(3) have "S \<noteq> {}" by auto
  then obtain a where a: "a \<in> S" by blast
  obtain q r where q: "length q = length cs" "\<forall>t. peval (c # cs) t = r + (t - a) * peval q t"
    "r = 0 \<and> (\<forall>x\<in>set q. x = 0) \<longrightarrow> c = 0 \<and> (\<forall>x\<in>set cs. x = 0)"
    using linear_factor [of cs c a] by blast
  have "peval (c # cs) a = r + (a - a) * peval q a" using q(2) by blast
  moreover have "peval (c # cs) a = 0" using Suc.prems(4) a p by blast
  ultimately have r0: "r = 0" by simp
  have "\<forall>t\<in>S - {a}. peval q t = 0"
  proof
    fix t assume t: "t \<in> S - {a}"
    then have "peval (c # cs) t = 0" using Suc.prems(4) p by blast
    moreover have "peval (c # cs) t = r + (t - a) * peval q t" using q(2) by blast
    ultimately have "(t - a) * peval q t = 0" using r0 by simp
    then show "peval q t = 0" using t by simp
  qed
  moreover have "n \<le> card (S - {a})" using Suc.prems(2,3) a by simp
  ultimately have "\<forall>x\<in>set q. x = 0"
    using Suc.IH [of q "S - {a}"] q(1) cs Suc.prems(2) by simp
  then show ?case using q(3) r0 p by simp
qed

definition vander :: "nat \<Rightarrow> (nat \<Rightarrow> rat) \<Rightarrow> nat \<Rightarrow> nat \<Rightarrow> rat" where
  "vander n ys r j = (if j < n then of_nat (Suc r) ^ j else ys r)"

lemma vander_inj: "inj_sys n (vander n ys)"
  unfolding inj_sys_def
proof (intro allI impI)
  fix v j assume s: "sols n (vander n ys) 0 v" and j: "j < n"
  let ?p = "map v [0..<n]"
  let ?S = "(\<lambda>r. (of_nat (Suc r) :: rat)) ` {..<n}"
  have "inj_on (\<lambda>r. (of_nat (Suc r) :: rat)) {..<n}"
    by (intro inj_onI) simp
  then have card: "card ?S = n" by (simp add: card_image)
  have "\<forall>t\<in>?S. peval ?p t = 0"
  proof
    fix t assume "t \<in> ?S"
    then obtain r where r: "r < n" "t = of_nat (Suc r)" by auto
    have "peval ?p t = (\<Sum>j<n. v j * t ^ j)"
      by (simp add: peval_sum)
    also have "\<dots> = (\<Sum>j<n. vander n ys r j * v j)"
      using r by (intro sum.cong) (simp_all add: vander_def mult.commute)
    also have "\<dots> = 0" using s r(1) by (simp add: sols_def)
    finally show "peval ?p t = 0" .
  qed
  then have "\<forall>x\<in>set ?p. x = 0"
    using roots_zero [of ?p n ?S] card by simp
  then show "v j = 0" using j by simp
qed

subsection \<open>The forward elimination of \<open>solve\<close>\<close>

text \<open>
  \<open>wfm n m\<close>: \<open>m\<close> is an \<open>n\<close> by \<open>n\<close> matrix of canonical rationals; \<open>wfv n y\<close>:
  the vector has canonical entries at the first \<open>n\<close> indices; \<open>aug n s\<close> is the system
  the state \<open>s\<close> denotes.
\<close>

definition wfm :: "nat \<Rightarrow> matrix \<Rightarrow> bool" where
  "wfm n m \<longleftrightarrow> length m = n \<and> (\<forall>r<n. length (m ! r) = n \<and> (\<forall>c<n. canonical (m ! r ! c)))"

definition wfv :: "nat \<Rightarrow> vector \<Rightarrow> bool" where
  "wfv n y \<longleftrightarrow> (\<forall>r<n. \<exists>q. y r = Some q \<and> canonical q)"

definition aug :: "nat \<Rightarrow> matrix \<times> vector \<Rightarrow> nat \<Rightarrow> nat \<Rightarrow> rat" where
  "aug n s r j = (if j < n then to_rat (fst s ! r ! j) else to_rat (the (snd s r)))"

lemma cell_wfm: "wfm n m \<Longrightarrow> r < n \<Longrightarrow> c < n \<Longrightarrow> cell m r c = Some (m ! r ! c)"
  by (simp add: wfm_def cell_def)

lemma wfm_canonical: "wfm n m \<Longrightarrow> r < n \<Longrightarrow> c < n \<Longrightarrow> canonical (m ! r ! c)"
  by (simp add: wfm_def)

lemma wfm_update:
  assumes "wfm n m" and "r < n" and "c < n" and "canonical v"
  shows "wfm n (m[r := (m ! r)[c := v]])"
  using assms by (auto simp: wfm_def nth_list_update)

lemma elim_cols_stop: "\<not> c < n \<Longrightarrow> elim_cols m n col r factor c = Inr m"
  by (subst elim_cols.simps) simp

lemma elim_cols_step:
  "c < n \<Longrightarrow> cell m col c = Some p \<Longrightarrow> mul factor p = Inr t \<Longrightarrow> cell m r c = Some a \<Longrightarrow>
   sub_frac a t = Inr v \<Longrightarrow>
     elim_cols m n col r factor c = elim_cols (m[r := (m ! r)[c := v]]) n col r factor (c + 1)"
  by (subst elim_cols.simps) simp

lemma elim_cols_spec:
  "wfm n m \<Longrightarrow> r < n \<Longrightarrow> col < n \<Longrightarrow> r \<noteq> col \<Longrightarrow> canonical factor \<Longrightarrow>
     \<exists>m'. elim_cols m n col r factor c = Inr m' \<and> wfm n m' \<and>
          (\<forall>r'<n. r' \<noteq> r \<longrightarrow> m' ! r' = m ! r') \<and>
          (\<forall>j<n. to_rat (m' ! r ! j) =
             (if c \<le> j then to_rat (m ! r ! j) - to_rat factor * to_rat (m ! col ! j)
              else to_rat (m ! r ! j)))"
proof (induction m n col r factor c rule: elim_cols.induct)
  case (1 m n col r factor c)
  show ?case
  proof (cases "c < n")
    case False
    then show ?thesis using "1.prems"(1) by (simp add: elim_cols_stop)
  next
    case True
    let ?p = "m ! col ! c" and ?a = "m ! r ! c"
    have cp: "cell m col c = Some ?p" and ca: "cell m r c = Some ?a"
      using "1.prems" True by (simp_all add: cell_wfm)
    have canp: "canonical ?p" and cana: "canonical ?a"
      using "1.prems" True by (simp_all add: wfm_canonical)
    obtain t where t: "mul factor ?p = Inr t" "canonical t" "to_rat t = to_rat factor * to_rat ?p"
      using mul_canonical [OF "1.prems"(5) canp] by blast
    obtain v where v: "sub_frac ?a t = Inr v" "canonical v" "to_rat v = to_rat ?a - to_rat t"
      using sub_canonical [OF cana t(2)] by blast
    let ?m1 = "m[r := (m ! r)[c := v]]"
    have wf1: "wfm n ?m1"
      using "1.prems"(1,2) True v(2) by (rule wfm_update)
    obtain m' where m': "elim_cols ?m1 n col r factor (c + 1) = Inr m'" "wfm n m'"
      "\<forall>r'<n. r' \<noteq> r \<longrightarrow> m' ! r' = ?m1 ! r'"
      "\<forall>j<n. to_rat (m' ! r ! j) =
             (if c + 1 \<le> j then to_rat (?m1 ! r ! j) - to_rat factor * to_rat (?m1 ! col ! j)
              else to_rat (?m1 ! r ! j))"
      using "1.IH" [OF True cp t(1) ca v(1) wf1 "1.prems"(2,3,4,5)] by blast
    have eq: "elim_cols m n col r factor c = Inr m'"
      using elim_cols_step [OF True cp t(1) ca v(1)] m'(1) by simp
    have len: "length m = n" "length (m ! r) = n"
      using "1.prems"(1,2) by (simp_all add: wfm_def)
    have rows: "\<forall>r'<n. r' \<noteq> r \<longrightarrow> m' ! r' = m ! r'"
      using m'(3) by simp
    have entries: "to_rat (m' ! r ! j) =
             (if c \<le> j then to_rat (m ! r ! j) - to_rat factor * to_rat (m ! col ! j)
              else to_rat (m ! r ! j))" if j: "j < n" for j
    proof -
      have m1r: "?m1 ! r ! j = (if j = c then v else m ! r ! j)"
        using len "1.prems"(2) j by (simp add: nth_list_update)
      have m1c: "?m1 ! col = m ! col"
        using "1.prems"(4) by simp
      consider "j < c" | "j = c" | "c < j" by linarith
      then show ?thesis
      proof cases
        case 1
        then show ?thesis using m'(4) j m1r by simp
      next
        case 2
        then show ?thesis using m'(4) j m1r v(3) t(3) by simp
      next
        case 3
        then show ?thesis using m'(4) j m1r m1c by simp
      qed
    qed
    show ?thesis using eq m'(2) rows entries by blast
  qed
qed

lemma elim_rhs_spec:
  assumes "wfv n y" and "col < n" and "r < n" and "canonical factor"
  shows "\<exists>y'. elim_rhs y col r factor = Inr y' \<and> wfv n y' \<and> (\<forall>r'. r' \<noteq> r \<longrightarrow> y' r' = y r') \<and>
           to_rat (the (y' r)) = to_rat (the (y r)) - to_rat factor * to_rat (the (y col))"
proof -
  obtain p where p: "y col = Some p" "canonical p" using assms(1,2) by (auto simp: wfv_def)
  obtain a where a: "y r = Some a" "canonical a" using assms(1,3) by (auto simp: wfv_def)
  obtain t where t: "mul factor p = Inr t" "canonical t" "to_rat t = to_rat factor * to_rat p"
    using mul_canonical [OF assms(4) p(2)] by blast
  obtain v where v: "sub_frac a t = Inr v" "canonical v" "to_rat v = to_rat a - to_rat t"
    using sub_canonical [OF a(2) t(2)] by blast
  have eq: "elim_rhs y col r factor = Inr (y(r := Some v))"
    using p(1) a(1) t(1) v(1) by (simp add: elim_rhs_def)
  have "wfv n (y(r := Some v))"
    using assms(1) v(2) by (simp add: wfv_def)
  then show ?thesis
    using eq p(1) a(1) v(3) t(3) by simp
qed


lemma aug_matrix: "j < n \<Longrightarrow> aug n s r j = to_rat (fst s ! r ! j)"
  by (simp add: aug_def)

lemma aug_rhs: "aug n s r n = to_rat (the (snd s r))"
  by (simp add: aug_def)

lemma elim_row_spec:
  assumes wm: "wfm n (fst s)" and wv: "wfv n (snd s)" and col: "col < n" and r: "r < n"
    and ne: "r \<noteq> col"
    and piv: "aug n s col col \<noteq> 0 \<or> aug n s r col = 0"
    and left: "\<forall>j<col. aug n s col j = 0"
  shows "\<exists>s'. elim_row s n col r = Inr s' \<and> wfm n (fst s') \<and> wfv n (snd s') \<and>
           (\<forall>r'<n. r' \<noteq> r \<longrightarrow> (\<forall>j\<le>n. aug n s' r' j = aug n s r' j)) \<and>
           (\<forall>j\<le>n. aug n s' r j = aug n s r j - (aug n s r col / aug n s col col) * aug n s col j)"
proof -
  let ?m = "fst s" and ?y = "snd s"
  let ?a = "?m ! r ! col" and ?p = "?m ! col ! col"
  have ca: "cell ?m r col = Some ?a" and cp: "cell ?m col col = Some ?p"
    using wm col r by (simp_all add: cell_wfm)
  have cana: "canonical ?a" and canp: "canonical ?p"
    using wm col r by (simp_all add: wfm_canonical)
  have ga: "aug n s r col = to_rat ?a" and gp: "aug n s col col = to_rat ?p"
    using col by (simp_all add: aug_matrix)
  show ?thesis
  proof (cases "num ?a = 0")
    case True
    then have z: "aug n s r col = 0" using ga cana by (simp add: to_rat_eq_0_iff)
    have "elim_row s n col r = Inr s"
      using ca True by (simp add: elim_row_def)
    then show ?thesis using wm wv z by simp
  next
    case False
    then have "aug n s r col \<noteq> 0" using ga cana by (simp add: to_rat_eq_0_iff)
    then have "aug n s col col \<noteq> 0" using piv by blast
    then have np: "num ?p \<noteq> 0" using gp canp by (simp add: to_rat_eq_0_iff)
    obtain f where f: "div_frac ?a ?p = Inr f" "canonical f" "to_rat f = to_rat ?a / to_rat ?p"
      using div_canonical [OF cana canp np] by blast
    obtain m' where m': "elim_cols ?m n col r f col = Inr m'" "wfm n m'"
      "\<forall>r'<n. r' \<noteq> r \<longrightarrow> m' ! r' = ?m ! r'"
      "\<forall>j<n. to_rat (m' ! r ! j) =
             (if col \<le> j then to_rat (?m ! r ! j) - to_rat f * to_rat (?m ! col ! j)
              else to_rat (?m ! r ! j))"
      using elim_cols_spec [OF wm r col ne f(2), of col] by blast
    obtain y' where y': "elim_rhs ?y col r f = Inr y'" "wfv n y'" "\<forall>r'. r' \<noteq> r \<longrightarrow> y' r' = ?y r'"
      "to_rat (the (y' r)) = to_rat (the (?y r)) - to_rat f * to_rat (the (?y col))"
      using elim_rhs_spec [OF wv col r f(2)] by blast
    have eq: "elim_row s n col r = Inr (m', y')"
      using ca cp False f(1) m'(1) y'(1) by (simp add: elim_row_def)
    have other: "aug n (m', y') r' j = aug n s r' j" if "r' < n" "r' \<noteq> r" for r' j
      using that m'(3) y'(3) by (simp add: aug_def)
    have this_row: "aug n (m', y') r j =
        aug n s r j - (aug n s r col / aug n s col col) * aug n s col j" if j: "j \<le> n" for j
    proof (cases "j < n")
      case jn: True
      show ?thesis
      proof (cases "col \<le> j")
        case True
        then show ?thesis using m'(4) jn f(3) ga gp by (simp add: aug_def)
      next
        case False
        then have "aug n s col j = 0" using left by simp
        then show ?thesis using m'(4) jn False by (simp add: aug_def)
      qed
    next
      case False
      then have "j = n" using j by simp
      then show ?thesis using y'(4) f(3) ga gp by (simp add: aug_def)
    qed
    show ?thesis
      using eq m'(2) y'(2) other this_row by (intro exI [of _ "(m', y')"]) simp
  qed
qed

lemma elim_rows_stop: "\<not> r < n \<Longrightarrow> elim_rows s n col r = Inr s"
  by (subst elim_rows.simps) simp

lemma elim_rows_step:
  "r < n \<Longrightarrow> elim_row s n col r = Inr s' \<Longrightarrow> elim_rows s n col r = elim_rows s' n col (r + 1)"
  by (subst elim_rows.simps) simp

lemma elim_rows_spec:
  "wfm n (fst s) \<Longrightarrow> wfv n (snd s) \<Longrightarrow> col < n \<Longrightarrow> col < r0 \<Longrightarrow>
   aug n s col col \<noteq> 0 \<or> (\<forall>r. r0 \<le> r \<and> r < n \<longrightarrow> aug n s r col = 0) \<Longrightarrow>
   \<forall>j<col. aug n s col j = 0 \<Longrightarrow>
     \<exists>s'. elim_rows s n col r0 = Inr s' \<and> wfm n (fst s') \<and> wfv n (snd s') \<and>
          (\<forall>r<n. \<forall>j\<le>n. aug n s' r j =
             (if r0 \<le> r then aug n s r j - (aug n s r col / aug n s col col) * aug n s col j
              else aug n s r j))"
proof (induction s n col r0 rule: elim_rows.induct)
  case (1 s n col r0)
  show ?case
  proof (cases "r0 < n")
    case False
    then show ?thesis using "1.prems"(1,2) by (simp add: elim_rows_stop)
  next
    case True
    have ne: "r0 \<noteq> col" using "1.prems"(4) by simp
    have piv: "aug n s col col \<noteq> 0 \<or> aug n s r0 col = 0"
      using "1.prems"(5) True by blast
    obtain s1 where s1: "elim_row s n col r0 = Inr s1" "wfm n (fst s1)" "wfv n (snd s1)"
      "\<forall>r'<n. r' \<noteq> r0 \<longrightarrow> (\<forall>j\<le>n. aug n s1 r' j = aug n s r' j)"
      "\<forall>j\<le>n. aug n s1 r0 j = aug n s r0 j - (aug n s r0 col / aug n s col col) * aug n s col j"
      using elim_row_spec [OF "1.prems"(1,2,3) True ne piv "1.prems"(6)] by blast
    have colrow: "aug n s1 col j = aug n s col j" if "j \<le> n" for j
      using s1(4) "1.prems"(3) ne that by simp
    have piv1: "aug n s1 col col \<noteq> 0 \<or> (\<forall>r. r0 + 1 \<le> r \<and> r < n \<longrightarrow> aug n s1 r col = 0)"
    proof (cases "aug n s col col = 0")
      case False
      then show ?thesis using colrow [of col] "1.prems"(3) by simp
    next
      case True
      then have "\<forall>r. r0 \<le> r \<and> r < n \<longrightarrow> aug n s r col = 0" using "1.prems"(5) by blast
      then have "\<forall>r. r0 + 1 \<le> r \<and> r < n \<longrightarrow> aug n s1 r col = 0"
        using s1(4) "1.prems"(3) by simp
      then show ?thesis by blast
    qed
    have left1: "\<forall>j<col. aug n s1 col j = 0"
      using colrow "1.prems"(3,6) by simp
    obtain s' where s': "elim_rows s1 n col (r0 + 1) = Inr s'" "wfm n (fst s')" "wfv n (snd s')"
      "\<forall>r<n. \<forall>j\<le>n. aug n s' r j =
             (if r0 + 1 \<le> r then aug n s1 r j - (aug n s1 r col / aug n s1 col col) * aug n s1 col j
              else aug n s1 r j)"
      using "1.IH" [OF True s1(1) s1(2,3) "1.prems"(3) _ piv1 left1] "1.prems"(4) by auto
    have eq: "elim_rows s n col r0 = Inr s'"
      using elim_rows_step [OF True s1(1)] s'(1) by simp
    have "aug n s' r j =
             (if r0 \<le> r then aug n s r j - (aug n s r col / aug n s col col) * aug n s col j
              else aug n s r j)" if r: "r < n" and j: "j \<le> n" for r j
    proof -
      consider "r < r0" | "r = r0" | "r0 < r" by linarith
      then show ?thesis
      proof cases
        case 1
        then show ?thesis using s'(4) s1(4) r j by simp
      next
        case 2
        then show ?thesis using s'(4) s1(5) r j by simp
      next
        case 3
        then have "aug n s' r j = aug n s1 r j - (aug n s1 r col / aug n s1 col col) * aug n s1 col j"
          using s'(4) r j by simp
        moreover have "aug n s1 r j = aug n s r j" "aug n s1 r col = aug n s r col"
          using s1(4) r j 3 "1.prems"(3) by simp_all
        ultimately show ?thesis using colrow [OF j] colrow [of col] "1.prems"(3) 3 by simp
      qed
    qed
    then show ?thesis using eq s'(2,3) by blast
  qed
qed

lemma find_pivot_stop: "\<not> r < n \<Longrightarrow> find_pivot m n col r = Inr col"
  by (subst find_pivot.simps) simp

lemma find_pivot_hit:
  "r < n \<Longrightarrow> cell m r col = Some a \<Longrightarrow> num a \<noteq> 0 \<Longrightarrow> find_pivot m n col r = Inr r"
  by (subst find_pivot.simps) simp

lemma find_pivot_miss:
  "r < n \<Longrightarrow> cell m r col = Some a \<Longrightarrow> num a = 0 \<Longrightarrow>
     find_pivot m n col r = find_pivot m n col (r + 1)"
  by (subst find_pivot.simps) simp

lemma find_pivot_spec:
  "wfm n m \<Longrightarrow> col < n \<Longrightarrow> \<exists>r. r0 \<le> r \<and> r < n \<and> num (m ! r ! col) \<noteq> 0 \<Longrightarrow>
     \<exists>p. find_pivot m n col r0 = Inr p \<and> r0 \<le> p \<and> p < n \<and> num (m ! p ! col) \<noteq> 0"
proof (induction m n col r0 rule: find_pivot.induct)
  case (1 m n col r0)
  from "1.prems"(3) obtain r where r: "r0 \<le> r" "r < n" "num (m ! r ! col) \<noteq> 0" by blast
  then have lt: "r0 < n" by simp
  have c: "cell m r0 col = Some (m ! r0 ! col)"
    using "1.prems"(1,2) lt by (simp add: cell_wfm)
  show ?case
  proof (cases "num (m ! r0 ! col) \<noteq> 0")
    case True
    then show ?thesis using find_pivot_hit [OF lt c] lt by simp
  next
    case False
    then have "r \<noteq> r0" using r(3) by blast
    then have ex: "\<exists>r. r0 + 1 \<le> r \<and> r < n \<and> num (m ! r ! col) \<noteq> 0"
      using r by (intro exI [of _ r]) simp
    obtain p where "find_pivot m n col (r0 + 1) = Inr p" "r0 + 1 \<le> p" "p < n" "num (m ! p ! col) \<noteq> 0"
      using "1.IH" [OF lt c _ "1.prems"(1,2) ex] False by auto
    then show ?thesis using find_pivot_miss [OF lt c] False by simp
  qed
qed

text \<open>
  The invariant of the loop over the columns: the state is well formed, the first
  \<open>col\<close> columns are eliminated with non-zero pivots, and the system has the solutions
  and the kernel of the system \<open>G0\<close> the loop started from.
\<close>

definition inv_fwd :: "nat \<Rightarrow> (nat \<Rightarrow> nat \<Rightarrow> rat) \<Rightarrow> nat \<Rightarrow> matrix \<times> vector \<Rightarrow> bool" where
  "inv_fwd n G0 col s \<longleftrightarrow>
     wfm n (fst s) \<and> wfv n (snd s) \<and> lower_zero n (aug n s) col \<and> diag_nz (aug n s) col \<and>
     (\<forall>c v. sols n (aug n s) c v = sols n G0 c v)"

lemma swap_state_aug:
  assumes wm: "wfm n (fst s)" and col: "col < n" and p: "p < n" and r: "r < n"
  shows "aug n (swap_rows (fst s) col p, swap_rhs (snd s) col p) r j =
           aug n s (if r = p then col else if r = col then p else r) j"
proof -
  have len: "length (fst s) = n" using wm by (simp add: wfm_def)
  show ?thesis
    using len col p r by (simp add: aug_def swap_rows_def swap_rhs_def nth_list_update)
qed

lemma swap_state_wf:
  assumes wm: "wfm n (fst s)" and wv: "wfv n (snd s)" and col: "col < n" and p: "p < n"
  shows "wfm n (swap_rows (fst s) col p) \<and> wfv n (swap_rhs (snd s) col p)"
proof -
  have len: "length (fst s) = n" using wm by (simp add: wfm_def)
  have "wfm n (swap_rows (fst s) col p)"
    using wm len col p by (auto simp: wfm_def swap_rows_def nth_list_update)
  moreover have "wfv n (swap_rhs (snd s) col p)"
    using wv col p by (auto simp: wfv_def swap_rhs_def)
  ultimately show ?thesis by simp
qed

lemma pivot_step_inv:
  assumes inj: "inj_sys n G0" and I: "inv_fwd n G0 col s" and col: "col < n"
  shows "\<exists>s'. pivot_step s n col = Inr s' \<and> inv_fwd n G0 (Suc col) s'"
proof -
  let ?G = "aug n s"
  have wm: "wfm n (fst s)" and wv: "wfv n (snd s)" and lz: "lower_zero n ?G col"
    and dn: "diag_nz ?G col" and eqv: "\<And>c v. sols n ?G c v = sols n G0 c v"
    using I by (simp_all add: inv_fwd_def)
  have "inj_sys n ?G" using inj eqv by (simp add: inj_sys_def)
  then obtain r where r: "col \<le> r" "r < n" "?G r col \<noteq> 0"
    using pivot_exists [OF _ col lz dn] by blast
  have "num (fst s ! r ! col) \<noteq> 0"
    using r col wm by (simp add: aug_matrix to_rat_eq_0_iff wfm_canonical)
  then obtain p where p: "find_pivot (fst s) n col col = Inr p" "col \<le> p" "p < n"
    "num (fst s ! p ! col) \<noteq> 0"
    using find_pivot_spec [OF wm col, of col] r by blast
  have Gp: "?G p col \<noteq> 0"
    using p col wm by (simp add: aug_matrix to_rat_eq_0_iff wfm_canonical)
  define s1 where "s1 = (if p \<noteq> col then (swap_rows (fst s) col p, swap_rhs (snd s) col p) else s)"
  let ?G1 = "aug n s1"
  have step: "pivot_step s n col = elim_rows s1 n col (col + 1)"
    using p(1) by (simp add: pivot_step_def s1_def)
  have G1: "?G1 r' j = ?G (if r' = p then col else if r' = col then p else r') j" if "r' < n" for r' j
    using swap_state_aug [OF wm col p(3) that] by (auto simp: s1_def)
  have wf1: "wfm n (fst s1)" "wfv n (snd s1)"
    using swap_state_wf [OF wm wv col p(3)] wm wv by (simp_all add: s1_def)
  have lz1: "lower_zero n ?G1 col"
    unfolding lower_zero_def
  proof (intro allI impI)
    fix c r' assume c: "c < col" and r': "r' < n" and cr: "c < r'"
    have "?G (if r' = p then col else if r' = col then p else r') c = 0"
      using lz c r' cr col p(2,3) by (simp add: lower_zero_def)
    then show "?G1 r' c = 0" using G1 [OF r'] by simp
  qed
  have dn1: "diag_nz ?G1 col"
    unfolding diag_nz_def
  proof (intro allI impI)
    fix c assume c: "c < col"
    then have "?G1 c c = ?G c c" using G1 [of c c] col p(2) by simp
    then show "?G1 c c \<noteq> 0" using dn c by (simp add: diag_nz_def)
  qed
  have eqv1: "sols n ?G1 c v = sols n G0 c v" for c v
  proof -
    have "sols n ?G1 c v = sols n ?G c v"
    proof (cases "p = col")
      case True
      then show ?thesis by (simp add: s1_def)
    next
      case False
      show ?thesis
      proof (rule sols_swap [OF col p(3)])
        show "\<And>j. j \<le> n \<Longrightarrow> ?G1 col j = ?G p j" using G1 [OF col] False by simp
        show "\<And>j. j \<le> n \<Longrightarrow> ?G1 p j = ?G col j" using G1 [OF p(3)] by simp
        show "\<And>r j. r < n \<Longrightarrow> r \<noteq> col \<Longrightarrow> r \<noteq> p \<Longrightarrow> j \<le> n \<Longrightarrow> ?G1 r j = ?G r j"
          using G1 by simp
      qed
    qed
    then show ?thesis using eqv by simp
  qed
  have piv1: "?G1 col col \<noteq> 0" using G1 [OF col, of col] Gp by (cases "p = col") simp_all
  have left1: "\<forall>j<col. ?G1 col j = 0"
    using lz1 col by (simp add: lower_zero_def)
  obtain s2 where s2: "elim_rows s1 n col (col + 1) = Inr s2" "wfm n (fst s2)" "wfv n (snd s2)"
    "\<forall>r<n. \<forall>j\<le>n. aug n s2 r j =
       (if col + 1 \<le> r then ?G1 r j - (?G1 r col / ?G1 col col) * ?G1 col j else ?G1 r j)"
    using elim_rows_spec [OF wf1 col, of "col + 1"] piv1 left1 by auto
  let ?G2 = "aug n s2"
  have lz2: "lower_zero n ?G2 (Suc col)"
    unfolding lower_zero_def
  proof (intro allI impI)
    fix c r' assume c: "c < Suc col" and r': "r' < n" and cr: "c < r'"
    have cn: "c \<le> n" using c col by simp
    show "?G2 r' c = 0"
    proof (cases "c = col")
      case True
      then have "?G2 r' c = ?G1 r' col - (?G1 r' col / ?G1 col col) * ?G1 col col"
        using s2(4) r' cr cn by simp
      then show ?thesis using piv1 by simp
    next
      case False
      then have c': "c < col" using c by simp
      then have z: "?G1 r' c = 0" "?G1 col c = 0"
        using lz1 r' cr col by (simp_all add: lower_zero_def)
      show ?thesis using s2(4) r' cn z by simp
    qed
  qed
  have dn2: "diag_nz ?G2 (Suc col)"
    unfolding diag_nz_def
  proof (intro allI impI)
    fix c assume c: "c < Suc col"
    then have "?G2 c c = ?G1 c c" using s2(4) col by simp
    then show "?G2 c c \<noteq> 0" using dn1 piv1 c by (cases "c = col") (simp_all add: diag_nz_def)
  qed
  have eqv2: "sols n ?G2 c v = sols n G0 c v" for c v
  proof -
    have "sols n ?G2 c v = sols n ?G1 c v"
    proof (rule sols_rowop [OF col, where f = "\<lambda>r. if col < r then ?G1 r col / ?G1 col col else 0"])
      show "\<And>j. j \<le> n \<Longrightarrow> ?G2 col j = ?G1 col j" using s2(4) col by simp
      show "\<And>r j. r < n \<Longrightarrow> r \<noteq> col \<Longrightarrow> j \<le> n \<Longrightarrow>
          ?G2 r j = ?G1 r j - (if col < r then ?G1 r col / ?G1 col col else 0) * ?G1 col j"
        using s2(4) by auto
    qed
    then show ?thesis using eqv1 by simp
  qed
  show ?thesis
    using step s2(1,2,3) lz2 dn2 eqv2 by (simp add: inv_fwd_def)
qed

lemma forward_stop: "\<not> col < n \<Longrightarrow> forward s n col = Inr s"
  by (subst forward.simps) simp

lemma forward_step:
  "col < n \<Longrightarrow> pivot_step s n col = Inr s' \<Longrightarrow> forward s n col = forward s' n (col + 1)"
  by (subst forward.simps) simp

lemma forward_inv:
  "inj_sys n G0 \<Longrightarrow> inv_fwd n G0 col s \<Longrightarrow> col \<le> n \<Longrightarrow>
     \<exists>s'. forward s n col = Inr s' \<and> inv_fwd n G0 n s'"
proof (induction s n col rule: forward.induct)
  case (1 s n col)
  show ?case
  proof (cases "col < n")
    case False
    then have "col = n" using "1.prems"(3) by simp
    then show ?thesis using "1.prems"(2) by (simp add: forward_stop)
  next
    case True
    obtain s1 where s1: "pivot_step s n col = Inr s1" "inv_fwd n G0 (Suc col) s1"
      using pivot_step_inv [OF "1.prems"(1,2) True] by blast
    obtain s' where "forward s1 n (col + 1) = Inr s'" "inv_fwd n G0 n s'"
      using "1.IH" [OF True s1(1) "1.prems"(1)] s1(2) True by auto
    then show ?thesis using forward_step [OF True s1(1)] by simp
  qed
qed

subsection \<open>The back substitution of \<open>solve\<close>\<close>

lemma back_sum_stop: "\<not> j < n \<Longrightarrow> back_sum m n x i j acc = Inr acc"
  by (subst back_sum.simps) simp

lemma back_sum_step:
  "j < n \<Longrightarrow> cell m i j = Some a \<Longrightarrow> array_of x j = Some xj \<Longrightarrow> mul a xj = Inr t \<Longrightarrow>
   add acc t = Inr acc' \<Longrightarrow>
     back_sum m n x i j acc = back_sum m n x i (j + 1) acc'"
  by (subst back_sum.simps) simp

lemma back_sum_spec:
  "wfm n m \<Longrightarrow> i < n \<Longrightarrow> length x = n \<Longrightarrow> \<forall>q\<in>set x. canonical q \<Longrightarrow> canonical acc \<Longrightarrow>
   j \<le> n \<Longrightarrow>
     \<exists>a. back_sum m n x i j acc = Inr a \<and> canonical a \<and>
         to_rat a = to_rat acc + (\<Sum>k = j..<n. to_rat (m ! i ! k) * to_rat (x ! k))"
proof (induction m n x i j acc rule: back_sum.induct)
  case (1 m n x i j acc)
  show ?case
  proof (cases "j < n")
    case False
    then show ?thesis using "1.prems"(5) by (simp add: back_sum_stop)
  next
    case True
    let ?a = "m ! i ! j" and ?xj = "x ! j"
    have ca: "cell m i j = Some ?a" using "1.prems"(1,2) True by (simp add: cell_wfm)
    have cx: "array_of x j = Some ?xj" using "1.prems"(3) True by (simp add: array_of_def)
    have cana: "canonical ?a" using "1.prems"(1,2) True by (simp add: wfm_canonical)
    have canx: "canonical ?xj" using "1.prems"(3,4) True by simp
    obtain t where t: "mul ?a ?xj = Inr t" "canonical t" "to_rat t = to_rat ?a * to_rat ?xj"
      using mul_canonical [OF cana canx] by blast
    obtain acc' where acc': "add acc t = Inr acc'" "canonical acc'" "to_rat acc' = to_rat acc + to_rat t"
      using add_canonical [OF "1.prems"(5) t(2)] by blast
    obtain a where a: "back_sum m n x i (j + 1) acc' = Inr a" "canonical a"
      "to_rat a = to_rat acc' + (\<Sum>k = j + 1..<n. to_rat (m ! i ! k) * to_rat (x ! k))"
      using "1.IH" [OF True ca cx t(1) acc'(1) "1.prems"(1,2,3,4) acc'(2)] True by auto
    have eq: "back_sum m n x i j acc = Inr a"
      using back_sum_step [OF True ca cx t(1) acc'(1)] a(1) by simp
    have "(\<Sum>k = j..<n. to_rat (m ! i ! k) * to_rat (x ! k)) =
        to_rat ?a * to_rat ?xj + (\<Sum>k = j + 1..<n. to_rat (m ! i ! k) * to_rat (x ! k))"
      using True by (simp add: sum.atLeast_Suc_lessThan)
    then show ?thesis using eq a(2,3) acc'(3) t(3) by simp
  qed
qed

lemma back_row_spec:
  assumes wm: "wfm n m" and wv: "wfv n y" and i: "i < n" and len: "length x = n"
    and canx: "\<forall>q\<in>set x. canonical q" and nz: "to_rat (m ! i ! i) \<noteq> 0"
  shows "\<exists>v. back_row m y n x i = Inr (x[i := v]) \<and> canonical v \<and>
           to_rat (m ! i ! i) * to_rat v + (\<Sum>k = Suc i..<n. to_rat (m ! i ! k) * to_rat (x ! k))
             = to_rat (the (y i))"
proof -
  have z: "makeFrac 0 1 = Inr (frac_of_int 0)" by (rule makeFrac_int)
  have canz: "canonical (frac_of_int 0)" using z by (rule makeFrac_Inr_canonical)
  have z0: "to_rat (frac_of_int 0) = 0" by (simp add: to_rat_def frac_of_int_def rat_number_collapse)
  obtain a where a: "back_sum m n x i (i + 1) (frac_of_int 0) = Inr a" "canonical a"
    "to_rat a = (\<Sum>k = i + 1..<n. to_rat (m ! i ! k) * to_rat (x ! k))"
    using back_sum_spec [OF wm i len canx canz, of "i + 1"] i z0 by auto
  obtain b where b: "y i = Some b" "canonical b" using wv i by (auto simp: wfv_def)
  obtain d where d: "sub_frac b a = Inr d" "canonical d" "to_rat d = to_rat b - to_rat a"
    using sub_canonical [OF b(2) a(2)] by blast
  let ?p = "m ! i ! i"
  have cp: "cell m i i = Some ?p" using wm i by (simp add: cell_wfm)
  have canp: "canonical ?p" using wm i by (simp add: wfm_canonical)
  have np: "num ?p \<noteq> 0" using nz canp by (simp add: to_rat_eq_0_iff)
  obtain v where v: "div_frac d ?p = Inr v" "canonical v" "to_rat v = to_rat d / to_rat ?p"
    using div_canonical [OF d(2) canp np] by blast
  have eq: "back_row m y n x i = Inr (x[i := v])"
    using z a(1) b(1) d(1) cp v(1) by (simp add: back_row_def)
  have "to_rat ?p * to_rat v = to_rat b - to_rat a"
    using v(3) d(3) nz by simp
  then show ?thesis using eq v(2) a(3) b(1) by (intro exI [of _ v]) simp
qed

lemma back_rows_spec:
  "wfm n m \<Longrightarrow> wfv n y \<Longrightarrow> k \<le> n \<Longrightarrow> length x = n \<Longrightarrow> \<forall>q\<in>set x. canonical q \<Longrightarrow>
   \<forall>i<n. to_rat (m ! i ! i) \<noteq> 0 \<Longrightarrow>
     \<exists>x'. back_rows m y n x k = Inr x' \<and> length x' = n \<and> (\<forall>q\<in>set x'. canonical q) \<and>
          (\<forall>j. k \<le> j \<and> j < n \<longrightarrow> x' ! j = x ! j) \<and>
          (\<forall>i<k. to_rat (m ! i ! i) * to_rat (x' ! i)
                    + (\<Sum>j = Suc i..<n. to_rat (m ! i ! j) * to_rat (x' ! j))
                  = to_rat (the (y i)))"
proof (induction k arbitrary: x)
  case 0
  then show ?case by simp
next
  case (Suc k)
  have k: "k < n" using Suc.prems(3) by simp
  have nz: "to_rat (m ! k ! k) \<noteq> 0" using Suc.prems(6) k by simp
  obtain v where v: "back_row m y n x k = Inr (x[k := v])" "canonical v"
    "to_rat (m ! k ! k) * to_rat v + (\<Sum>j = Suc k..<n. to_rat (m ! k ! j) * to_rat (x ! j))
       = to_rat (the (y k))"
    using back_row_spec [OF Suc.prems(1,2) k Suc.prems(4,5) nz] by blast
  let ?x1 = "x[k := v]"
  have len1: "length ?x1 = n" using Suc.prems(4) by simp
  have can1: "\<forall>q\<in>set ?x1. canonical q"
    using Suc.prems(5) v(2) set_update_subset_insert [of x k v] by auto
  obtain x' where x': "back_rows m y n ?x1 k = Inr x'" "length x' = n" "\<forall>q\<in>set x'. canonical q"
    "\<forall>j. k \<le> j \<and> j < n \<longrightarrow> x' ! j = ?x1 ! j"
    "\<forall>i<k. to_rat (m ! i ! i) * to_rat (x' ! i)
                    + (\<Sum>j = Suc i..<n. to_rat (m ! i ! j) * to_rat (x' ! j))
                  = to_rat (the (y i))"
    using Suc.IH [OF Suc.prems(1,2) _ len1 can1 Suc.prems(6)] k by auto
  have eq: "back_rows m y n x (Suc k) = Inr x'"
    using v(1) x'(1) by simp
  have keep: "\<forall>j. Suc k \<le> j \<and> j < n \<longrightarrow> x' ! j = x ! j"
    using x'(4) by simp
  have xk: "x' ! k = v" using x'(4) k Suc.prems(4) by simp
  have rowk: "to_rat (m ! k ! k) * to_rat (x' ! k)
                    + (\<Sum>j = Suc k..<n. to_rat (m ! k ! j) * to_rat (x' ! j))
                  = to_rat (the (y k))"
  proof -
    have "(\<Sum>j = Suc k..<n. to_rat (m ! k ! j) * to_rat (x' ! j))
        = (\<Sum>j = Suc k..<n. to_rat (m ! k ! j) * to_rat (x ! j))"
      using keep by (intro sum.cong) simp_all
    then show ?thesis using v(3) xk by simp
  qed
  have "to_rat (m ! i ! i) * to_rat (x' ! i)
                    + (\<Sum>j = Suc i..<n. to_rat (m ! i ! j) * to_rat (x' ! j))
                  = to_rat (the (y i))" if "i < Suc k" for i
    using that x'(5) rowk by (cases "i = k") simp_all
  then show ?case using eq x'(2,3) keep by blast
qed

text \<open>
  On a well-formed system with a trivial kernel, \<open>solve\<close> returns, and what it returns
  is a solution in canonical form.
\<close>

lemma solve_spec:
  assumes wm: "wfm n A" and lb: "length b = n" and cb: "\<forall>q\<in>set b. canonical q"
    and inj: "inj_sys n (aug n (A, array_of b))"
  shows "\<exists>x. solve A b = Inr x \<and> length x = n \<and> (\<forall>q\<in>set x. canonical q) \<and>
           sols n (aug n (A, array_of b)) 1 (\<lambda>j. to_rat (x ! j))"
proof -
  let ?start = "(A, array_of b)"
  let ?Gs = "aug n ?start"
  have len: "length A = n" using wm by (simp add: wfm_def)
  have wv: "wfv n (array_of b)"
    using lb cb by (simp add: wfv_def array_of_def)
  have I0: "inv_fwd n ?Gs 0 ?start"
    using wm wv by (simp add: inv_fwd_def lower_zero_def diag_nz_def)
  obtain s where s: "forward ?start n 0 = Inr s" "inv_fwd n ?Gs n s"
    using forward_inv [OF inj I0] by auto
  let ?G = "aug n s"
  have wms: "wfm n (fst s)" and wvs: "wfv n (snd s)" and lz: "lower_zero n ?G n"
    and dn: "diag_nz ?G n" and eqv: "\<And>c v. sols n ?G c v = sols n ?Gs c v"
    using s(2) by (simp_all add: inv_fwd_def)
  have nz: "\<forall>i<n. to_rat (fst s ! i ! i) \<noteq> 0"
    using dn by (simp add: diag_nz_def aug_def)
  have z: "makeFrac 0 1 = Inr (frac_of_int 0)" by (rule makeFrac_int)
  have canz: "canonical (frac_of_int 0)" using z by (rule makeFrac_Inr_canonical)
  let ?zeros = "replicate n (frac_of_int 0)"
  obtain x where x: "back_rows (fst s) (snd s) n ?zeros n = Inr x" "length x = n"
    "\<forall>q\<in>set x. canonical q"
    "\<forall>i<n. to_rat (fst s ! i ! i) * to_rat (x ! i)
                    + (\<Sum>j = Suc i..<n. to_rat (fst s ! i ! j) * to_rat (x ! j))
                  = to_rat (the (snd s i))"
    using back_rows_spec [OF wms wvs, of n ?zeros] canz nz by auto
  have eq: "solve A b = Inr x"
    using s(1) z x(1) len by (simp add: solve_def)
  have "sols n ?G 1 (\<lambda>j. to_rat (x ! j))"
  proof (rule upper_solution [OF lz])
    fix r assume r: "r < n"
    have "(\<Sum>j = Suc r..<n. ?G r j * to_rat (x ! j))
        = (\<Sum>j = Suc r..<n. to_rat (fst s ! r ! j) * to_rat (x ! j))"
      by (intro sum.cong) (simp_all add: aug_def)
    then show "?G r r * to_rat (x ! r) + (\<Sum>j = Suc r..<n. ?G r j * to_rat (x ! j)) = ?G r n"
      using x(4) r by (simp add: aug_def)
  qed
  then have "sols n ?Gs 1 (\<lambda>j. to_rat (x ! j))" using eqv by simp
  then show ?thesis using eq x(2,3) by blast
qed

subsection \<open>Encoding and decoding\<close>

text \<open>
  The encoder of the round-trip property. It is not part of the scripts: it is the usual
  positional notation of a natural number in base \<open>b\<close>, most significant digit first,
  with the digits of \<open>DIGITS\<close>.
\<close>

function encode_base :: "nat \<Rightarrow> nat \<Rightarrow> string" where
  "encode_base b n =
     (if n < b \<or> b < 2 then [DIGITS ! n]
      else encode_base b (n div b) @ [DIGITS ! (n mod b)])"
  by pat_completeness auto
termination
  by (relation "measure (\<lambda>(b, n). n)") auto

declare encode_base.simps [simp del]

lemma digit_index: "\<forall>d\<in>set [0..<36]. indexOf DIGITS (DIGITS ! d) = int d"
  by code_simp

lemma digit_lower: "\<forall>d\<in>set [0..<36]. toLowerCase_char (DIGITS ! d) = DIGITS ! d"
  by code_simp

lemma digit_index_nth: "d < 36 \<Longrightarrow> indexOf DIGITS (DIGITS ! d) = int d"
  using digit_index by simp

lemma parse_loop_append:
  "parse_loop (s @ s') B acc =
     (case parse_loop s B acc of Inl e \<Rightarrow> Inl e | Inr r \<Rightarrow> parse_loop s' B r)"
  by (induction s arbitrary: acc) (simp_all add: Let_def)

lemma parse_loop_digit:
  "d < 36 \<Longrightarrow> parse_loop [DIGITS ! d] B acc = Inr (acc * B + int d)"
  by (simp add: digit_index_nth)

lemma parse_loop_encode:
  "2 \<le> b \<Longrightarrow> b \<le> 36 \<Longrightarrow>
     parse_loop (encode_base b n) (int b) acc =
       Inr (acc * int b ^ length (encode_base b n) + int n)"
proof (induction b n arbitrary: acc rule: encode_base.induct)
  case (1 b n)
  show ?case
  proof (cases "n < b")
    case True
    then have e: "encode_base b n = [DIGITS ! n]"
      by (subst encode_base.simps) simp
    have "n < 36" using True "1.prems"(2) by simp
    then have "parse_loop [DIGITS ! n] (int b) acc = Inr (acc * int b + int n)"
      by (rule parse_loop_digit)
    then show ?thesis by (simp only: e) simp
  next
    case False
    then have e: "encode_base b n = encode_base b (n div b) @ [DIGITS ! (n mod b)]"
      using "1.prems"(1) by (subst encode_base.simps) simp
    have d: "n mod b < 36" using "1.prems" by (simp add: less_le_trans [OF mod_less_divisor])
    have ih: "parse_loop (encode_base b (n div b)) (int b) acc =
       Inr (acc * int b ^ length (encode_base b (n div b)) + int (n div b))"
      using "1.IH" [OF _ "1.prems"] False "1.prems"(1) by simp
    have "int (n div b) * int b + int (n mod b) = int n"
      by (metis div_mult_mod_eq of_nat_add of_nat_mult)
    then have "(acc * int b ^ length (encode_base b (n div b)) + int (n div b)) * int b + int (n mod b)
        = acc * int b ^ length (encode_base b n) + int n"
      using e by (simp add: algebra_simps)
    moreover have "parse_loop [DIGITS ! (n mod b)] (int b)
          (acc * int b ^ length (encode_base b (n div b)) + int (n div b))
        = Inr ((acc * int b ^ length (encode_base b (n div b)) + int (n div b)) * int b + int (n mod b))"
      using d by (rule parse_loop_digit)
    ultimately have "parse_loop [DIGITS ! (n mod b)] (int b)
          (acc * int b ^ length (encode_base b (n div b)) + int (n div b))
        = Inr (acc * int b ^ length (encode_base b n) + int n)"
      by (simp only:)
    then show ?thesis
      by (simp only: e parse_loop_append ih sum.case)
  qed
qed

lemma parseInBase_encode:
  assumes "2 \<le> b" and "b \<le> 36" and "toLowerCase s = encode_base b n"
  shows "parseInBase s (int b) = Inr (int n)"
  using parse_loop_encode [OF assms(1,2), of n 0] assms(3) by (simp add: parseInBase_def)

lemma decode_points_stop: "\<not> i \<le> k \<Longrightarrow> decode_points data k i points = Inr points"
  by (subst decode_points.simps) simp

lemma decode_points_step:
  "i \<le> k \<Longrightarrow> data i = Some entry \<Longrightarrow> parseInBase (snd entry) (fst entry) = Inr y \<Longrightarrow>
     decode_points data k i points = decode_points data k (i + 1) (points @ [(i, y)])"
  by (subst decode_points.simps) simp

lemma decode_points_spec:
  "\<forall>i. i0 \<le> i \<and> i \<le> k \<longrightarrow> (\<exists>entry. data i = Some entry \<and> parseInBase (snd entry) (fst entry) = Inr (Y i)) \<Longrightarrow>
     decode_points data k i0 points = Inr (points @ map (\<lambda>i. (i, Y i)) [i0..k])"
proof (induction data k i0 points rule: decode_points.induct)
  case (1 data k i points)
  show ?case
  proof (cases "i \<le> k")
    case False
    then show ?thesis by (simp add: decode_points_stop)
  next
    case True
    obtain entry where e: "data i = Some entry" "parseInBase (snd entry) (fst entry) = Inr (Y i)"
      using "1.prems" True by auto
    have "decode_points data k (i + 1) (points @ [(i, Y i)]) =
        Inr ((points @ [(i, Y i)]) @ map (\<lambda>i. (i, Y i)) [i + 1..k])"
      using "1.IH" [of entry "Y i", OF True e] "1.prems" by simp
    moreover have "[i..k] = i # [i + 1..k]" using True by (rule upto_rec1)
    ultimately show ?thesis
      using decode_points_step [of i k data entry "Y i" points, OF True e] by simp
  qed
qed

subsection \<open>The round trip\<close>

lemma frac_of_int_canonical: "canonical (frac_of_int n)"
  using makeFrac_int by (rule makeFrac_Inr_canonical)

lemma to_rat_frac_of_int: "to_rat (frac_of_int n) = of_int n"
  by (simp add: to_rat_def frac_of_int_def Fract_of_int_eq)

lemma peval_of_int: "(of_int (peval cs t) :: rat) = peval (map of_int cs) (of_int t)"
  by (induction cs) simp_all

lemma peval_at_0: "cs \<noteq> [] \<Longrightarrow> peval cs 0 = cs ! 0"
  by (cases cs) simp_all

lemma bigint_quot_one: "bigint_quot a 1 = Inr a"
  using bigint_div_exact [of 1 a] by (simp add: bigint_quot_def)

lemma vandermonde_solve:
  fixes cs :: "int list"
  assumes len: "length cs = k"
    and pts: "points = map (\<lambda>i. (i, peval cs i)) [1..int k]"
  shows "solve (map (\<lambda>p. map (\<lambda>j. frac_of_int (fst p ^ j)) [0..<k]) points)
               (map (\<lambda>p. frac_of_int (snd p)) points)
           = Inr (map frac_of_int cs)"
proof -
  let ?A = "map (\<lambda>p. map (\<lambda>j. frac_of_int (fst p ^ j)) [0..<k]) points"
  let ?b = "map (\<lambda>p. frac_of_int (snd p)) points"
  let ?G = "aug k (?A, array_of ?b)"
  define ys :: "nat \<Rightarrow> rat" where "ys r = of_int (peval cs (int r + 1))" for r
  have lp: "length points = k" by (simp add: pts)
  have pr: "points ! r = (int r + 1, peval cs (int r + 1))" if "r < k" for r
    using that by (simp add: pts add.commute)
  have wm: "wfm k ?A"
    using lp by (simp add: wfm_def frac_of_int_canonical)
  have lb: "length ?b = k" using lp by simp
  have cb: "\<forall>q\<in>set ?b. canonical q" by (auto simp: frac_of_int_canonical)
  have G: "?G r j = vander k ys r j" if "r < k" "j \<le> k" for r j
    using that lp pr [OF that(1)]
    by (simp add: aug_def vander_def ys_def array_of_def to_rat_frac_of_int add.commute)
  have eqv: "sols k ?G c v = sols k (vander k ys) c v" for c v
    by (rule sols_cong) (rule G)
  have inj: "inj_sys k ?G"
    using vander_inj [of k ys] eqv by (simp add: inj_sys_def)
  obtain x where x: "solve ?A ?b = Inr x" "length x = k" "\<forall>q\<in>set x. canonical q"
    "sols k ?G 1 (\<lambda>j. to_rat (x ! j))"
    using solve_spec [OF wm lb cb inj] by blast
  have "sols k (vander k ys) 1 (\<lambda>j. of_int (cs ! j))"
    unfolding sols_def
  proof (intro allI impI)
    fix r assume r: "r < k"
    have "(\<Sum>j<k. vander k ys r j * of_int (cs ! j)) = (\<Sum>j<k. (of_int (cs ! j) :: rat) * of_nat (Suc r) ^ j)"
      by (intro sum.cong) (simp_all add: vander_def mult.commute)
    also have "\<dots> = (\<Sum>j<length (map rat_of_int cs). map rat_of_int cs ! j * of_nat (Suc r) ^ j)"
      using len by (intro sum.cong) simp_all
    also have "\<dots> = peval (map rat_of_int cs) (of_nat (Suc r))"
      by (rule peval_sum [symmetric])
    also have "\<dots> = of_int (peval cs (int r + 1))"
      by (simp add: peval_of_int add.commute)
    finally show "(\<Sum>j<k. vander k ys r j * of_int (cs ! j)) = 1 * vander k ys r k"
      by (simp add: vander_def ys_def)
  qed
  then have coeff: "sols k ?G 1 (\<lambda>j. of_int (cs ! j))"
    by (simp only: eqv)
  have "x ! j = frac_of_int (cs ! j)" if j: "j < k" for j
  proof -
    have "to_rat (x ! j) = of_int (cs ! j)"
      using sols_unique [OF inj x(4) coeff j] .
    then have "to_rat (x ! j) = to_rat (frac_of_int (cs ! j))"
      by (simp add: to_rat_frac_of_int)
    moreover have "canonical (x ! j)" using x(2,3) j by simp
    ultimately show ?thesis using frac_of_int_canonical by (rule canonical_unique [rotated 2])
  qed
  then have "x = map frac_of_int cs"
    using x(2) len by (intro nth_equalityI) simp_all
  then show ?thesis using x(1) by simp
qed

text \<open>
  C1, as the claim states it, covers every polynomial with integer coefficients. At
  \<open>k = 1\<close> and the constant polynomial \<open>P = -1\<close> the sample value is \<open>P(1) = -1\<close>,
  written "-1" in base 10: parseInBase rejects the sign and the script fails. No other
  string helps, since parseInBase never returns a negative number
  (\<open>parseInBase_nonneg\<close>).
\<close>

theorem roundtrip_negative_sample:
  "peval [- 1 :: int] 1 = - 1
   \<and> main_coeff 1 [1 \<mapsto> (10, ''-1'')] = Inl (InvalidDigit (CHR ''-''))
   \<and> main 1 [1 \<mapsto> (10, ''-1'')] = Inl (InvalidDigit (CHR ''-''))"
  by code_simp

text \<open>
  C1, amended. Let P be a polynomial with the integer coefficients \<open>cs\<close>, \<open>k\<close> of them
  (degree at most k - 1, with k at least 1 and below the array-length limit), whose values
  P(1), ..., P(k) are not negative. Let the input hold, for each i from 1 to k, a base
  between 2 and 36 and a digit string that is, up to the case of its letters, the encoding
  of P(i) in that base. Then decoding with parseInBase, building the system and running
  \<open>solve\<close> returns the coefficient vector of P as rationals with denominator 1; its
  entry 0 is P(0) with denominator 1, and the script prints P(0).
\<close>

theorem roundtrip:
  fixes cs :: "int list" and data :: "int \<Rightarrow> (int \<times> string) option" and base :: "int \<Rightarrow> nat"
  assumes len: "length cs = k" and k0: "0 < k" and k32: "k < 4294967296"
    and enc: "\<forall>i\<in>{1..int k}. \<exists>s. 2 \<le> base i \<and> base i \<le> 36 \<and> 0 \<le> peval cs i \<and>
                data i = Some (int (base i), s) \<and>
                toLowerCase s = encode_base (base i) (nat (peval cs i))"
  shows "main_coeff (int k) data = Inr (map frac_of_int cs)
       \<and> map frac_of_int cs ! 0 = \<lparr>num = peval cs 0, den = 1\<rparr>
       \<and> main (int k) data = Inr (peval cs 0)"
proof -
  define points where "points = map (\<lambda>i. (i, peval cs i)) [1..int k]"
  have "\<exists>entry. data i = Some entry \<and> parseInBase (snd entry) (fst entry) = Inr (peval cs i)"
    if i: "1 \<le> i \<and> i \<le> int k" for i
  proof -
    have "i \<in> {1..int k}" using i by simp
    with enc have "\<exists>s. 2 \<le> base i \<and> base i \<le> 36 \<and> 0 \<le> peval cs i \<and>
                data i = Some (int (base i), s) \<and>
                toLowerCase s = encode_base (base i) (nat (peval cs i))"
      by (rule bspec)
    then obtain s where s: "2 \<le> base i" "base i \<le> 36" "0 \<le> peval cs i"
      "data i = Some (int (base i), s)" "toLowerCase s = encode_base (base i) (nat (peval cs i))"
      by blast
    have "parseInBase s (int (base i)) = Inr (int (nat (peval cs i)))"
      using s(1,2,5) by (rule parseInBase_encode)
    then show ?thesis using s(3,4) by simp
  qed
  then have dec: "decode_points data (int k) 1 [] = Inr points"
    using decode_points_spec [of 1 "int k" data "peval cs" "[]"] by (simp add: points_def)
  have lp: "length points = k" by (simp add: points_def)
  have sys: "main_system points (int k) =
           Inr (map (\<lambda>p. map (\<lambda>j. frac_of_int (fst p ^ j)) [0..<k]) points,
                map (\<lambda>p. frac_of_int (snd p)) points)"
    using lp k32 by (rule main_system_eq)
  have coeff: "main_coeff (int k) data = Inr (map frac_of_int cs)"
    using dec sys vandermonde_solve [OF len points_def] by (simp add: main_coeff_def)
  have ne: "cs \<noteq> []" using len k0 by auto
  have c0: "map frac_of_int cs ! 0 = \<lparr>num = peval cs 0, den = 1\<rparr>"
    using ne len k0 by (simp add: peval_at_0 frac_of_int_def)
  have "array_of (map frac_of_int cs) 0 = Some \<lparr>num = peval cs 0, den = 1\<rparr>"
    using c0 len k0 by (simp add: array_of_def)
  then have "main (int k) data = Inr (peval cs 0)"
    using coeff by (simp add: main_def bigint_quot_one)
  then show ?thesis using coeff c0 by simp
qed


text \<open>
  The theorem at \<open>P(x) = 5 + 2x + 3x^2\<close> and \<open>k = 3\<close>: P(1) = 10 is "A" in base 16,
  P(2) = 21 is "10101" in base 2 and P(3) = 38 is "12" in base 36.
\<close>

theorem roundtrip_witness:
  "main_coeff 3 [1 \<mapsto> (16, ''A''), 2 \<mapsto> (2, ''10101''), 3 \<mapsto> (36, ''12'')]
     = Inr [\<lparr>num = 5, den = 1\<rparr>, \<lparr>num = 2, den = 1\<rparr>, \<lparr>num = 3, den = 1\<rparr>]
   \<and> main 3 [1 \<mapsto> (16, ''A''), 2 \<mapsto> (2, ''10101''), 3 \<mapsto> (36, ''12'')] = Inr 5"
proof -
  let ?cs = "[5, 2, 3] :: int list"
  let ?data = "[1 \<mapsto> (16, ''A''), 2 \<mapsto> (2, ''10101''), 3 \<mapsto> (36, ''12'')] :: int \<Rightarrow> (int \<times> string) option"
  let ?base = "\<lambda>i :: int. if i = 1 then 16 else if i = 2 then 2 else (36 :: nat)"
  have e1: "toLowerCase ''A'' = encode_base 16 (nat (peval ?cs 1))"
    and e2: "toLowerCase ''10101'' = encode_base 2 (nat (peval ?cs 2))"
    and e3: "toLowerCase ''12'' = encode_base 36 (nat (peval ?cs 3))"
    by code_simp+
  have enc: "\<forall>i\<in>{1..int 3}. \<exists>s. 2 \<le> ?base i \<and> ?base i \<le> 36 \<and> 0 \<le> peval ?cs i \<and>
                ?data i = Some (int (?base i), s) \<and>
                toLowerCase s = encode_base (?base i) (nat (peval ?cs i))"
  proof
    fix i :: int assume "i \<in> {1..int 3}"
    then have "i = 1 \<or> i = 2 \<or> i = 3" by (simp add: atLeastAtMost_iff) presburger
    then consider "i = 1" | "i = 2" | "i = 3" by blast
    then show "\<exists>s. 2 \<le> ?base i \<and> ?base i \<le> 36 \<and> 0 \<le> peval ?cs i \<and>
                ?data i = Some (int (?base i), s) \<and>
                toLowerCase s = encode_base (?base i) (nat (peval ?cs i))"
    proof cases
      case 1
      then show ?thesis using e1 by (intro exI [of _ "''A''"]) simp
    next
      case 2
      then show ?thesis using e2 by (intro exI [of _ "''10101''"]) simp
    next
      case 3
      then show ?thesis using e3 by (intro exI [of _ "''12''"]) simp
    qed
  qed
  have "length ?cs = 3" "(0::nat) < 3" "(3::nat) < 4294967296" by simp_all
  from roundtrip [OF this enc]
  have r: "main_coeff (int 3) ?data = Inr (map frac_of_int ?cs)"
    "main (int 3) ?data = Inr (peval ?cs 0)"
    by blast+
  have c: "map frac_of_int ?cs = [\<lparr>num = 5, den = 1\<rparr>, \<lparr>num = 2, den = 1\<rparr>, \<lparr>num = 3, den = 1\<rparr>]"
    "peval ?cs 0 = 5" "int 3 = 3"
    by (simp_all add: frac_of_int_def)
  show ?thesis
    using r unfolding c by (rule conjI)
qed

section \<open>The exact solver on a matrix with two identical rows\<close>

text \<open>
  \<open>left_dep n G\<close>: some combination of the rows of the matrix, not all coefficients
  zero, is the zero row. Swaps and row operations keep such a combination, and a
  triangular matrix with a non-zero diagonal has none. So the elimination of a matrix with
  two identical rows ends with a zero on the diagonal, and the back substitution divides
  by it: for every well-formed system of this kind \<open>solve\<close> returns no vector and fails
  with the Zero denominator error.
\<close>

definition left_dep :: "nat \<Rightarrow> (nat \<Rightarrow> nat \<Rightarrow> rat) \<Rightarrow> bool" where
  "left_dep n G \<longleftrightarrow> (\<exists>w. (\<exists>r<n. w r \<noteq> 0) \<and> (\<forall>j<n. (\<Sum>r<n. w r * G r j) = 0))"

lemma sum_remove_row:
  fixes f :: "nat \<Rightarrow> rat"
  assumes "p < n"
  shows "(\<Sum>r<n. f r) = f p + (\<Sum>r\<in>{..<n} - {p}. f r)"
  using sum.remove [of "{..<n}" p f] assms by simp

lemma left_dep_rowop:
  assumes p: "p < n" and dep: "left_dep n G"
    and same: "\<And>j. j < n \<Longrightarrow> G' p j = G p j"
    and other: "\<And>r j. r < n \<Longrightarrow> r \<noteq> p \<Longrightarrow> j < n \<Longrightarrow> G' r j = G r j - f r * G p j"
  shows "left_dep n G'"
proof -
  obtain w r0 where r0: "r0 < n" "w r0 \<noteq> 0" and w: "\<forall>j<n. (\<Sum>r<n. w r * G r j) = 0"
    using dep by (auto simp: left_dep_def)
  define c where "c = (\<Sum>r\<in>{..<n} - {p}. w r * f r)"
  define w' where "w' = w(p := w p + c)"
  have others: "w' r = w r" if "r \<noteq> p" for r using that by (simp add: w'_def)
  have eq: "(\<Sum>r<n. w' r * G' r j) = 0" if j: "j < n" for j
  proof -
    have "(\<Sum>r\<in>{..<n} - {p}. w' r * G' r j) = (\<Sum>r\<in>{..<n} - {p}. w r * G r j - (w r * f r) * G p j)"
      using j by (intro sum.cong) (simp_all add: others other algebra_simps)
    also have "\<dots> = (\<Sum>r\<in>{..<n} - {p}. w r * G r j) - c * G p j"
      by (simp add: sum_subtractf sum_distrib_right c_def)
    finally have "(\<Sum>r<n. w' r * G' r j) = (w p + c) * G p j + ((\<Sum>r\<in>{..<n} - {p}. w r * G r j) - c * G p j)"
      using sum_remove_row [OF p, of "\<lambda>r. w' r * G' r j"] same [OF j] by (simp add: w'_def)
    also have "\<dots> = w p * G p j + (\<Sum>r\<in>{..<n} - {p}. w r * G r j)"
      by (simp add: algebra_simps)
    also have "\<dots> = (\<Sum>r<n. w r * G r j)"
      using sum_remove_row [OF p, of "\<lambda>r. w r * G r j"] by simp
    finally show ?thesis using w j by simp
  qed
  have "\<exists>r<n. w' r \<noteq> 0"
  proof (cases "\<exists>r<n. r \<noteq> p \<and> w r \<noteq> 0")
    case True
    then show ?thesis using others by auto
  next
    case False
    then have z: "\<And>r. r \<in> {..<n} - {p} \<Longrightarrow> w r * f r = 0" by auto
    have "c = 0" unfolding c_def by (rule sum.neutral) (simp add: z)
    moreover have "r0 = p" using False r0 by blast
    ultimately have "w' p \<noteq> 0" using r0 by (simp add: w'_def)
    then show ?thesis using p by blast
  qed
  then show ?thesis using eq by (auto simp: left_dep_def)
qed

lemma left_dep_swap:
  assumes a: "a < n" and b: "b < n" and dep: "left_dep n G"
    and G': "\<And>r j. r < n \<Longrightarrow> j < n \<Longrightarrow> G' r j = G (if r = a then b else if r = b then a else r) j"
  shows "left_dep n G'"
proof -
  obtain w r0 where r0: "r0 < n" "w r0 \<noteq> 0" and w: "\<forall>j<n. (\<Sum>r<n. w r * G r j) = 0"
    using dep by (auto simp: left_dep_def)
  define \<sigma> where "\<sigma> r = (if r = a then b else if r = b then a else r)" for r
  have inv: "\<sigma> (\<sigma> r) = r" for r by (simp add: \<sigma>_def)
  have bij: "bij_betw \<sigma> {..<n} {..<n}"
    by (rule bij_betw_byWitness [where f' = \<sigma>]) (use a b in \<open>auto simp: \<sigma>_def\<close>)
  have eq: "(\<Sum>r<n. w (\<sigma> r) * G' r j) = 0" if j: "j < n" for j
  proof -
    have "(\<Sum>r<n. w (\<sigma> r) * G' r j) = (\<Sum>r<n. w (\<sigma> r) * G (\<sigma> r) j)"
      using j by (intro sum.cong) (simp_all add: G' \<sigma>_def)
    also have "\<dots> = (\<Sum>r<n. w r * G r j)"
      using sum.reindex_bij_betw [OF bij, of "\<lambda>r. w r * G r j"] by simp
    finally show ?thesis using w j by simp
  qed
  have "\<sigma> r0 < n" using r0(1) a b by (simp add: \<sigma>_def)
  moreover have "w (\<sigma> (\<sigma> r0)) \<noteq> 0" using r0(2) inv by simp
  ultimately have "\<exists>r<n. w (\<sigma> r) \<noteq> 0" by blast
  then show ?thesis using eq by (auto simp: left_dep_def intro!: exI [of _ "\<lambda>r. w (\<sigma> r)"])
qed

lemma triangular_no_left_dep:
  assumes lz: "lower_zero n G n" and dn: "diag_nz G n"
  shows "\<not> left_dep n G"
proof
  assume "left_dep n G"
  then obtain w where nz: "\<exists>r<n. w r \<noteq> 0" and w: "\<forall>j<n. (\<Sum>r<n. w r * G r j) = 0"
    by (auto simp: left_dep_def)
  have "\<forall>r<j. w r = 0" if "j \<le> n" for j
    using that
  proof (induction j)
    case 0
    then show ?case by simp
  next
    case (Suc j)
    then have ih: "\<forall>r<j. w r = 0" and j: "j < n" by simp_all
    have "(\<Sum>r<n. w r * G r j) = w j * G j j"
    proof -
      have "(\<Sum>r\<in>{..<n} - {j}. w r * G r j) = 0"
      proof (rule sum.neutral, rule ballI)
        fix r assume r: "r \<in> {..<n} - {j}"
        show "w r * G r j = 0"
        proof (cases "r < j")
          case True
          then show ?thesis using ih by simp
        next
          case False
          then have "j < r" using r by simp
          then have "G r j = 0" using lz j r by (simp add: lower_zero_def)
          then show ?thesis by simp
        qed
      qed
      then show ?thesis using sum_remove_row [OF j, of "\<lambda>r. w r * G r j"] by simp
    qed
    then have "w j * G j j = 0" using w j by simp
    moreover have "G j j \<noteq> 0" using dn j by (simp add: diag_nz_def)
    ultimately have "w j = 0" by simp
    then show ?case using ih by (simp add: less_Suc_eq)
  qed
  then show False using nz by auto
qed


text \<open>
  One column of the elimination on any well-formed state, with or without a pivot
  candidate: \<open>p\<close> is the row swapped into place.
\<close>

lemma find_pivot_none:
  "wfm n m \<Longrightarrow> col < n \<Longrightarrow> \<forall>r. r0 \<le> r \<and> r < n \<longrightarrow> num (m ! r ! col) = 0 \<Longrightarrow>
     find_pivot m n col r0 = Inr col"
proof (induction m n col r0 rule: find_pivot.induct)
  case (1 m n col r0)
  show ?case
  proof (cases "r0 < n")
    case False
    then show ?thesis by (rule find_pivot_stop)
  next
    case True
    have c: "cell m r0 col = Some (m ! r0 ! col)"
      using "1.prems"(1,2) True by (simp add: cell_wfm)
    have z: "num (m ! r0 ! col) = 0" using "1.prems"(3) True by simp
    have "find_pivot m n col (r0 + 1) = Inr col"
      using "1.IH" [OF True c _ "1.prems"(1,2)] z "1.prems"(3) by simp
    then show ?thesis using find_pivot_miss [OF True c z] by simp
  qed
qed

lemma pivot_step_shape:
  assumes wm: "wfm n (fst s)" and wv: "wfv n (snd s)" and lz: "lower_zero n (aug n s) col"
    and col: "col < n"
  shows "\<exists>s' p. pivot_step s n col = Inr s' \<and> wfm n (fst s') \<and> wfv n (snd s') \<and>
           col \<le> p \<and> p < n \<and>
           (aug n s p col \<noteq> 0 \<or> (p = col \<and> (\<forall>r. col \<le> r \<and> r < n \<longrightarrow> aug n s r col = 0))) \<and>
           (\<forall>r<n. \<forall>j\<le>n. aug n s' r j =
              (if col < r
               then aug n s (if r = p then col else r) j
                    - (aug n s (if r = p then col else r) col / aug n s p col) * aug n s p j
               else aug n s (if r = col then p else r) j))"
proof -
  let ?G = "aug n s"
  have numz: "num (fst s ! r ! col) = 0 \<longleftrightarrow> ?G r col = 0" if "r < n" for r
    using that col wm by (simp add: aug_matrix to_rat_eq_0_iff wfm_canonical)
  have "\<exists>p. find_pivot (fst s) n col col = Inr p \<and> col \<le> p \<and> p < n \<and>
          (?G p col \<noteq> 0 \<or> (p = col \<and> (\<forall>r. col \<le> r \<and> r < n \<longrightarrow> ?G r col = 0)))"
  proof (cases "\<exists>r. col \<le> r \<and> r < n \<and> num (fst s ! r ! col) \<noteq> 0")
    case True
    then obtain p where "find_pivot (fst s) n col col = Inr p" "col \<le> p" "p < n"
      "num (fst s ! p ! col) \<noteq> 0"
      using find_pivot_spec [OF wm col, of col] by blast
    then show ?thesis using numz by blast
  next
    case False
    then have z: "\<forall>r. col \<le> r \<and> r < n \<longrightarrow> num (fst s ! r ! col) = 0" by blast
    then have "find_pivot (fst s) n col col = Inr col"
      using find_pivot_none [OF wm col] by blast
    moreover have "\<forall>r. col \<le> r \<and> r < n \<longrightarrow> ?G r col = 0" using z numz by blast
    ultimately show ?thesis using col by blast
  qed
  then obtain p where p: "find_pivot (fst s) n col col = Inr p" "col \<le> p" "p < n"
    "?G p col \<noteq> 0 \<or> (p = col \<and> (\<forall>r. col \<le> r \<and> r < n \<longrightarrow> ?G r col = 0))"
    by blast
  define s1 where "s1 = (if p \<noteq> col then (swap_rows (fst s) col p, swap_rhs (snd s) col p) else s)"
  let ?G1 = "aug n s1"
  have step: "pivot_step s n col = elim_rows s1 n col (col + 1)"
    using p(1) by (simp add: pivot_step_def s1_def)
  have G1: "?G1 r j = ?G (if r = p then col else if r = col then p else r) j" if "r < n" for r j
    using swap_state_aug [OF wm col p(3) that] by (auto simp: s1_def)
  have wf1: "wfm n (fst s1)" "wfv n (snd s1)"
    using swap_state_wf [OF wm wv col p(3)] wm wv by (simp_all add: s1_def)
  have G1col: "?G1 col j = ?G p j" for j using G1 [OF col] by simp
  have piv1: "?G1 col col \<noteq> 0 \<or> (\<forall>r. col + 1 \<le> r \<and> r < n \<longrightarrow> ?G1 r col = 0)"
  proof (cases "?G p col \<noteq> 0")
    case True
    then show ?thesis using G1col by simp
  next
    case False
    then have "p = col" "\<forall>r. col \<le> r \<and> r < n \<longrightarrow> ?G r col = 0" using p(4) by blast+
    then have "\<forall>r. col + 1 \<le> r \<and> r < n \<longrightarrow> ?G1 r col = 0" using G1 by simp
    then show ?thesis by blast
  qed
  have left1: "\<forall>j<col. ?G1 col j = 0"
    using G1col lz p(2,3) by (simp add: lower_zero_def)
  obtain s2 where s2: "elim_rows s1 n col (col + 1) = Inr s2" "wfm n (fst s2)" "wfv n (snd s2)"
    "\<forall>r<n. \<forall>j\<le>n. aug n s2 r j =
       (if col + 1 \<le> r then ?G1 r j - (?G1 r col / ?G1 col col) * ?G1 col j else ?G1 r j)"
    using elim_rows_spec [OF wf1 col, of "col + 1"] piv1 left1 by auto
  have "aug n s2 r j =
              (if col < r
               then ?G (if r = p then col else r) j
                    - (?G (if r = p then col else r) col / ?G p col) * ?G p j
               else ?G (if r = col then p else r) j)" if r: "r < n" and j: "j \<le> n" for r j
  proof (cases "col < r")
    case True
    then have "aug n s2 r j = ?G1 r j - (?G1 r col / ?G1 col col) * ?G1 col j"
      using s2(4) r j by simp
    then show ?thesis using True G1 [OF r] G1col by simp
  next
    case False
    then have "aug n s2 r j = ?G1 r j" using s2(4) r j by simp
    then show ?thesis using False G1 [OF r] p(2) by auto
  qed
  then show ?thesis using step s2(1,2,3) p(2,3,4) by (intro exI [of _ s2] exI [of _ p]) simp
qed


definition inv_sing :: "nat \<Rightarrow> nat \<Rightarrow> matrix \<times> vector \<Rightarrow> bool" where
  "inv_sing n col s \<longleftrightarrow>
     wfm n (fst s) \<and> wfv n (snd s) \<and> lower_zero n (aug n s) col \<and>
     ((\<exists>c<col. aug n s c c = 0) \<or> (diag_nz (aug n s) col \<and> left_dep n (aug n s)))"

lemma pivot_step_sing:
  assumes I: "inv_sing n col s" and col: "col < n"
  shows "\<exists>s'. pivot_step s n col = Inr s' \<and> inv_sing n (Suc col) s'"
proof -
  let ?G = "aug n s"
  have wm: "wfm n (fst s)" and wv: "wfv n (snd s)" and lz: "lower_zero n ?G col"
    and alt: "(\<exists>c<col. ?G c c = 0) \<or> (diag_nz ?G col \<and> left_dep n ?G)"
    using I by (simp_all add: inv_sing_def)
  obtain s' p where s': "pivot_step s n col = Inr s'" "wfm n (fst s')" "wfv n (snd s')"
    and p: "col \<le> p" "p < n"
      "?G p col \<noteq> 0 \<or> (p = col \<and> (\<forall>r. col \<le> r \<and> r < n \<longrightarrow> ?G r col = 0))"
    and G': "\<forall>r<n. \<forall>j\<le>n. aug n s' r j =
              (if col < r
               then ?G (if r = p then col else r) j
                    - (?G (if r = p then col else r) col / ?G p col) * ?G p j
               else ?G (if r = col then p else r) j)"
    using pivot_step_shape [OF wm wv lz col] by blast
  let ?H = "aug n s'"
  have below: "?G r c = 0" if "c < col" "col \<le> r" "r < n" for r c
    using lz that by (simp add: lower_zero_def)
  have lz': "lower_zero n ?H (Suc col)"
    unfolding lower_zero_def
  proof (intro allI impI)
    fix c r assume c: "c < Suc col" and r: "r < n" and cr: "c < r"
    have cn: "c \<le> n" using c col by simp
    show "?H r c = 0"
    proof (cases "c = col")
      case True
      then have H: "?H r c = ?G (if r = p then col else r) col
                    - (?G (if r = p then col else r) col / ?G p col) * ?G p col"
        using G' r cr cn by simp
      show ?thesis
      proof (cases "?G p col = 0")
        case False
        then show ?thesis using H by simp
      next
        case True
        then have "\<forall>r. col \<le> r \<and> r < n \<longrightarrow> ?G r col = 0" using p(3) by blast
        then show ?thesis using H r cr \<open>c = col\<close> col by simp
      qed
    next
      case False
      then have c': "c < col" using c by simp
      show ?thesis
      proof (cases "col < r")
        case True
        then have "?H r c = ?G (if r = p then col else r) c
                    - (?G (if r = p then col else r) col / ?G p col) * ?G p c"
          using G' r cn by simp
        moreover have "?G (if r = p then col else r) c = 0" "?G p c = 0"
          using below [OF c'] True r p(1,2) col by simp_all
        ultimately show ?thesis by simp
      next
        case False
        then have "?H r c = ?G (if r = col then p else r) c" using G' r cn by simp
        moreover have "?G (if r = col then p else r) c = 0"
        proof (cases "r = col")
          case True
          then show ?thesis using below [OF c' p(1,2)] by simp
        next
          case False
          then show ?thesis using lz c' r cr by (simp add: lower_zero_def)
        qed
        ultimately show ?thesis by simp
      qed
    qed
  qed
  have upper: "?H c j = ?G c j" if "c < col" "j \<le> n" for c j
    using G' that col by simp
  have Hcol: "?H col j = ?G p j" if "j \<le> n" for j
    using G' that col by simp
  have alt': "(\<exists>c<Suc col. ?H c c = 0) \<or> (diag_nz ?H (Suc col) \<and> left_dep n ?H)"
  proof (cases "\<exists>c<col. ?G c c = 0")
    case True
    then obtain c where "c < col" "?G c c = 0" by blast
    then have "c < Suc col" "?H c c = 0" using upper [of c c] col by simp_all
    then show ?thesis by blast
  next
    case False
    then have dn: "diag_nz ?G col" and dep: "left_dep n ?G" using alt by blast+
    show ?thesis
    proof (cases "?G p col = 0")
      case True
      then have "?H col col = 0" using Hcol [of col] col by simp
      then show ?thesis by blast
    next
      case nz: False
      define G1 where "G1 r j = ?G (if r = col then p else if r = p then col else r) j" for r j
      have dep1: "left_dep n G1"
        by (rule left_dep_swap [OF col p(2) dep]) (simp add: G1_def)
      have "left_dep n ?H"
      proof (rule left_dep_rowop [OF col dep1, where f = "\<lambda>r. if col < r then G1 r col / G1 col col else 0"])
        show "\<And>j. j < n \<Longrightarrow> ?H col j = G1 col j" using Hcol by (simp add: G1_def)
        show "\<And>r j. r < n \<Longrightarrow> r \<noteq> col \<Longrightarrow> j < n \<Longrightarrow>
            ?H r j = G1 r j - (if col < r then G1 r col / G1 col col else 0) * G1 col j"
          using G' p(1) by (auto simp: G1_def)
      qed
      moreover have "diag_nz ?H (Suc col)"
        unfolding diag_nz_def
      proof (intro allI impI)
        fix c assume c: "c < Suc col"
        show "?H c c \<noteq> 0"
        proof (cases "c = col")
          case True
          then show ?thesis using Hcol [of col] nz col by simp
        next
          case False
          then have "c < col" using c by simp
          then show ?thesis using upper [of c c] dn col by (simp add: diag_nz_def)
        qed
      qed
      ultimately show ?thesis by blast
    qed
  qed
  show ?thesis using s' lz' alt' by (auto simp: inv_sing_def)
qed

lemma forward_sing:
  "inv_sing n col s \<Longrightarrow> col \<le> n \<Longrightarrow> \<exists>s'. forward s n col = Inr s' \<and> inv_sing n n s'"
proof (induction s n col rule: forward.induct)
  case (1 s n col)
  show ?case
  proof (cases "col < n")
    case False
    then have "col = n" using "1.prems"(2) by simp
    then show ?thesis using "1.prems"(1) by (simp add: forward_stop)
  next
    case True
    obtain s1 where s1: "pivot_step s n col = Inr s1" "inv_sing n (Suc col) s1"
      using pivot_step_sing [OF "1.prems"(1) True] by blast
    obtain s' where "forward s1 n (col + 1) = Inr s'" "inv_sing n n s'"
      using "1.IH" [OF True s1(1)] s1(2) True by auto
    then show ?thesis using forward_step [OF True s1(1)] by simp
  qed
qed

lemma back_row_zero_diag:
  assumes wm: "wfm n m" and wv: "wfv n y" and i: "i < n" and len: "length x = n"
    and canx: "\<forall>q\<in>set x. canonical q" and z: "to_rat (m ! i ! i) = 0"
  shows "back_row m y n x i = Inl ZeroDenominator"
proof -
  have z0: "makeFrac 0 1 = Inr (frac_of_int 0)" by (rule makeFrac_int)
  have canz: "canonical (frac_of_int 0)" using z0 by (rule makeFrac_Inr_canonical)
  obtain a where a: "back_sum m n x i (i + 1) (frac_of_int 0) = Inr a" "canonical a"
    using back_sum_spec [OF wm i len canx canz, of "i + 1"] i by auto
  obtain b where b: "y i = Some b" "canonical b" using wv i by (auto simp: wfv_def)
  obtain d where d: "sub_frac b a = Inr d"
    using sub_canonical [OF b(2) a(2)] by blast
  have cp: "cell m i i = Some (m ! i ! i)" using wm i by (simp add: cell_wfm)
  have "num (m ! i ! i) = 0" using z wm i by (simp add: to_rat_eq_0_iff wfm_canonical)
  then have "div_frac d (m ! i ! i) = Inl ZeroDenominator" by (rule div_by_zero)
  then show ?thesis using z0 a(1) b(1) d cp by (simp add: back_row_def)
qed

lemma back_rows_zero_diag:
  "wfm n m \<Longrightarrow> wfv n y \<Longrightarrow> k \<le> n \<Longrightarrow> length x = n \<Longrightarrow> \<forall>q\<in>set x. canonical q \<Longrightarrow>
   \<exists>i<k. to_rat (m ! i ! i) = 0 \<Longrightarrow>
     back_rows m y n x k = Inl ZeroDenominator"
proof (induction k arbitrary: x)
  case 0
  then show ?case by simp
next
  case (Suc k)
  have k: "k < n" using Suc.prems(3) by simp
  show ?case
  proof (cases "to_rat (m ! k ! k) = 0")
    case True
    then show ?thesis
      using back_row_zero_diag [OF Suc.prems(1,2) k Suc.prems(4,5)] by simp
  next
    case False
    then obtain v where v: "back_row m y n x k = Inr (x[k := v])" "canonical v"
      using back_row_spec [OF Suc.prems(1,2) k Suc.prems(4,5)] by blast
    have can1: "\<forall>q\<in>set (x[k := v]). canonical q"
      using Suc.prems(5) v(2) set_update_subset_insert [of x k v] by auto
    have ex: "\<exists>i<k. to_rat (m ! i ! i) = 0"
      using Suc.prems(6) False by (metis less_Suc_eq)
    have "back_rows m y n (x[k := v]) k = Inl ZeroDenominator"
      using Suc.IH [OF Suc.prems(1,2) _ _ can1 ex] k Suc.prems(4) by simp
    then show ?thesis using v(1) by simp
  qed
qed

lemma solve_identical_rows_fail:
  assumes wm: "wfm n A" and lb: "length b = n" and cb: "\<forall>q\<in>set b. canonical q"
    and p: "p < n" and q: "q < n" and pq: "p \<noteq> q" and same: "A ! p = A ! q"
  shows "solve A b = Inl ZeroDenominator"
proof -
  let ?start = "(A, array_of b)"
  let ?G = "aug n ?start"
  have len: "length A = n" using wm by (simp add: wfm_def)
  have wv: "wfv n (array_of b)" using lb cb by (simp add: wfv_def array_of_def)
  have dep: "left_dep n ?G"
    unfolding left_dep_def
  proof (intro exI [of _ "\<lambda>r. if r = p then 1 else if r = q then - 1 else (0::rat)"] conjI allI impI)
    show "\<exists>r<n. (if r = p then 1 else if r = q then - 1 else (0::rat)) \<noteq> 0"
      using p by (intro exI [of _ p]) simp
  next
    fix j assume j: "j < n"
    have "(\<Sum>r<n. (if r = p then 1 else if r = q then - 1 else 0) * ?G r j)
        = (\<Sum>r<n. (if r = p then ?G p j else 0) + (if r = q then - ?G q j else 0))"
      using pq by (intro sum.cong) auto
    also have "\<dots> = ?G p j - ?G q j"
      using p q by (simp add: sum.distrib)
    also have "\<dots> = 0" using same j by (simp add: aug_def)
    finally show "(\<Sum>r<n. (if r = p then 1 else if r = q then - 1 else 0) * ?G r j) = 0" .
  qed
  have "inv_sing n 0 ?start"
    using wm wv dep by (simp add: inv_sing_def lower_zero_def diag_nz_def)
  then obtain s where s: "forward ?start n 0 = Inr s" "inv_sing n n s"
    using forward_sing [of n 0 ?start] by auto
  have wms: "wfm n (fst s)" and wvs: "wfv n (snd s)" and lz: "lower_zero n (aug n s) n"
    and alt: "(\<exists>c<n. aug n s c c = 0) \<or> (diag_nz (aug n s) n \<and> left_dep n (aug n s))"
    using s(2) by (simp_all add: inv_sing_def)
  have "\<exists>c<n. aug n s c c = 0"
    using alt triangular_no_left_dep [OF lz] by blast
  then have zd: "\<exists>i<n. to_rat (fst s ! i ! i) = 0" by (auto simp: aug_def)
  have z: "makeFrac 0 1 = Inr (frac_of_int 0)" by (rule makeFrac_int)
  have canz: "canonical (frac_of_int 0)" using z by (rule makeFrac_Inr_canonical)
  have "back_rows (fst s) (snd s) n (replicate n (frac_of_int 0)) n = Inl ZeroDenominator"
    using back_rows_zero_diag [OF wms wvs _ _ _ zd] canz by simp
  then show ?thesis using s(1) z len by (simp add: solve_def)
qed

end
